theory Spec2Isabelle
  imports Main "HOL-Library.Multiset"
begin

section \<open>Data model\<close>

text \<open>
  Authors are identified by their name string only.  The publication source
  (\<open>ArxivClient.search_arxiv_publications\<close>) is an external, network-bound
  capability: it is a parameter of the model, and it either raises or returns
  the list of results.  Of a result only the list of author names is read
  (\<open>ArxivClient.get_coauthors\<close>).
\<close>

type_synonym author = string

datatype error = SourceUnavailable | StopIteration

datatype arxiv_result = Result (authors: "author list")

type_synonym publication_source = "author \<Rightarrow> error + arxiv_result list"

definition get_coauthors :: "arxiv_result \<Rightarrow> author list" where
  "get_coauthors r = authors r"

subsection \<open>The undirected graph (\<open>nx.Graph\<close>)\<close>

text \<open>
  \<open>nx.Graph\<close> keeps a dictionary from each node to the dictionary of its
  neighbours, both in insertion order.  It is modelled as an association list
  from a node to the list of its neighbours.
\<close>

type_synonym nx_graph = "(author \<times> author list) list"

definition nodes :: "nx_graph \<Rightarrow> author list" where
  "nodes g = map fst g"

definition has_node :: "nx_graph \<Rightarrow> author \<Rightarrow> bool" where
  "has_node g n = (n \<in> set (nodes g))"

definition neighbors :: "nx_graph \<Rightarrow> author \<Rightarrow> author list" where
  "neighbors g n = (case map_of g n of None \<Rightarrow> [] | Some ns \<Rightarrow> ns)"

definition has_edge :: "nx_graph \<Rightarrow> author \<Rightarrow> author \<Rightarrow> bool" where
  "has_edge g u v = (v \<in> set (neighbors g u))"

definition add_node :: "nx_graph \<Rightarrow> author \<Rightarrow> nx_graph" where
  "add_node g n = (if has_node g n then g else g @ [(n, [])])"

fun add_nbr :: "nx_graph \<Rightarrow> author \<Rightarrow> author \<Rightarrow> nx_graph" where
  "add_nbr [] u v = []"
| "add_nbr ((k, ns) # g) u v =
     (if k = u then (k, if v \<in> set ns then ns else ns @ [v]) # g
      else (k, ns) # add_nbr g u v)"

definition add_edge :: "nx_graph \<Rightarrow> author \<Rightarrow> author \<Rightarrow> nx_graph" where
  "add_edge g u v = add_nbr (add_nbr (add_node (add_node g u) v) u v) v u"

text \<open>
  \<open>G.edges()\<close> walks the nodes in order and reports each neighbour that is not
  a node already walked, so that an edge is reported from one end only.
\<close>

fun edges_from :: "author list \<Rightarrow> nx_graph \<Rightarrow> (author \<times> author) list" where
  "edges_from seen [] = []"
| "edges_from seen ((n, ns) # g) =
     map (Pair n) (filter (\<lambda>v. v \<notin> set seen) ns) @ edges_from (n # seen) g"

definition edges :: "nx_graph \<Rightarrow> (author \<times> author) list" where
  "edges g = edges_from [] g"

definition number_of_nodes :: "nx_graph \<Rightarrow> nat" where
  "number_of_nodes g = length (nodes g)"

definition number_of_edges :: "nx_graph \<Rightarrow> nat" where
  "number_of_edges g = length (edges g)"

text \<open>
  The representation invariant of \<open>nx.Graph\<close>: every node has one entry, no
  neighbour is listed twice, and adjacency is symmetric.
\<close>

definition wf_graph :: "nx_graph \<Rightarrow> bool" where
  "wf_graph g = (distinct (nodes g) \<and> list_all (\<lambda>(n, ns). distinct ns) g \<and>
     list_all (\<lambda>(n, ns). list_all (\<lambda>v. n \<in> set (neighbors g v)) ns) g)"

section \<open>Building the collaboration network\<close>

text \<open>The loop over the co-authors of one result.\<close>

fun coauthor_loop ::
  "author \<Rightarrow> int \<Rightarrow> author set \<Rightarrow> author list \<Rightarrow>
   nx_graph \<times> (author \<times> int) list \<Rightarrow> nx_graph \<times> (author \<times> int) list" where
  "coauthor_loop current_author depth processed [] (g, queue) = (g, queue)"
| "coauthor_loop current_author depth processed (coauthor # rest) (g, queue) =
     (if coauthor \<noteq> current_author
      then coauthor_loop current_author depth processed rest
             (add_edge g current_author coauthor,
              if coauthor \<notin> processed then queue @ [(coauthor, depth + 1)] else queue)
      else coauthor_loop current_author depth processed rest (g, queue))"

text \<open>The loop over the results of one query.\<close>

fun results_loop ::
  "author \<Rightarrow> int \<Rightarrow> author set \<Rightarrow> arxiv_result list \<Rightarrow>
   nx_graph \<times> (author \<times> int) list \<Rightarrow> nx_graph \<times> (author \<times> int) list" where
  "results_loop current_author depth processed [] acc = acc"
| "results_loop current_author depth processed (r # rs) acc =
     results_loop current_author depth processed rs
       (coauthor_loop current_author depth processed (get_coauthors r) acc)"

text \<open>
  The outcome of a run: the graph, the authors the source was queried for, in
  the order of the calls, and the exception that ended the run, if one did.
  The function itself returns the graph only; the list of calls is kept to
  state how often the source is queried.
\<close>

record run =
  graph_of :: nx_graph
  queried :: "author list"
  raised :: "error option"

lemma coauthor_loop_queue:
  "\<exists>new. snd (coauthor_loop c d p cs (g, q)) = q @ new \<and> (\<forall>x \<in> set new. snd x = d + 1)"
proof (induction cs arbitrary: g q)
  case Nil
  show ?case by simp
next
  case (Cons a cs)
  show ?case
  proof (cases "a \<noteq> c \<and> a \<notin> p")
    case True
    from Cons.IH [of "add_edge g c a" "q @ [(a, d + 1)]"]
    obtain new where "snd (coauthor_loop c d p cs (add_edge g c a, q @ [(a, d + 1)]))
        = (q @ [(a, d + 1)]) @ new" "\<forall>x \<in> set new. snd x = d + 1"
      by blast
    then have "snd (coauthor_loop c d p (a # cs) (g, q)) = q @ ((a, d + 1) # new)
        \<and> (\<forall>x \<in> set ((a, d + 1) # new). snd x = d + 1)"
      using True by simp
    then show ?thesis by blast
  next
    case False
    then show ?thesis using Cons.IH by auto
  qed
qed

lemma results_loop_queue:
  "\<exists>new. snd (results_loop c d p rs (g, q)) = q @ new \<and> (\<forall>x \<in> set new. snd x = d + 1)"
proof (induction rs arbitrary: g q)
  case Nil
  show ?case by simp
next
  case (Cons r rs)
  obtain g1 q1 where s: "coauthor_loop c d p (get_coauthors r) (g, q) = (g1, q1)"
    by (cases "coauthor_loop c d p (get_coauthors r) (g, q)")
  from coauthor_loop_queue [of c d p "get_coauthors r" g q] s
  obtain n1 where n1: "q1 = q @ n1" "\<forall>x \<in> set n1. snd x = d + 1" by auto
  from Cons.IH [of g1 q1]
  obtain n2 where n2: "snd (results_loop c d p rs (g1, q1)) = q1 @ n2"
      "\<forall>x \<in> set n2. snd x = d + 1" by blast
  have "snd (results_loop c d p (r # rs) (g, q)) = q @ (n1 @ n2)
      \<and> (\<forall>x \<in> set (n1 @ n2). snd x = d + 1)"
    using s n1 n2 by auto
  then show ?case by blast
qed

text \<open>
  The \<open>while queue\<close> loop.  An exception of the source is not caught anywhere
  in the loop, so it ends the run.
\<close>

function while_loop ::
  "publication_source \<Rightarrow> int \<Rightarrow> nx_graph \<Rightarrow> author set \<Rightarrow> (author \<times> int) list \<Rightarrow>
   author list \<Rightarrow> run" where
  "while_loop src max_depth g processed [] log =
     \<lparr>graph_of = g, queried = log, raised = None\<rparr>"
| "while_loop src max_depth g processed ((current_author, depth) # queue) log =
     (if current_author \<in> processed then while_loop src max_depth g processed queue log
      else
        let processed' = insert current_author processed;
            g' = (if \<not> has_node g current_author then add_node g current_author else g)
        in if depth \<ge> max_depth then while_loop src max_depth g' processed' queue log
           else (case src current_author of
              Inl e \<Rightarrow> \<lparr>graph_of = g', queried = log @ [current_author], raised = Some e\<rparr>
            | Inr results \<Rightarrow>
                if results = []
                then while_loop src max_depth g' processed' queue (log @ [current_author])
                else while_loop src max_depth
                       (fst (results_loop current_author depth processed' results (g', queue)))
                       processed'
                       (snd (results_loop current_author depth processed' results (g', queue)))
                       (log @ [current_author])))"
  by pat_completeness auto

definition queue_weight :: "int \<Rightarrow> (author \<times> int) list \<Rightarrow> nat multiset" where
  "queue_weight max_depth queue = mset (map (\<lambda>x. nat (max_depth - snd x)) queue)"

lemma queue_weight_pop:
  "(queue_weight m q, queue_weight m (x # q)) \<in> mult {(a, b). a < b}"
proof -
  have "(queue_weight m q + {#}, queue_weight m q + {#nat (m - snd x)#}) \<in> mult {(a, b). a < b}"
    by (rule one_step_implies_mult) auto
  then show ?thesis by (simp add: queue_weight_def)
qed

lemma queue_weight_expand:
  assumes "d < m" and "\<forall>x \<in> set new. snd x = d + 1"
  shows "(queue_weight m (q @ new), queue_weight m ((a, d) # q)) \<in> mult {(a, b). a < b}"
proof -
  have "(queue_weight m q + queue_weight m new, queue_weight m q + {#nat (m - d)#})
      \<in> mult {(a, b). a < b}"
  proof (rule one_step_implies_mult)
    show "{#nat (m - d)#} \<noteq> {#}" by simp
    show "\<forall>k \<in> set_mset (queue_weight m new). \<exists>j \<in> set_mset {#nat (m - d)#}.
        (k, j) \<in> {(a, b). a < b}"
      using assms by (auto simp: queue_weight_def)
  qed
  then show ?thesis by (simp add: queue_weight_def)
qed

termination while_loop
proof (relation "inv_image (mult {(a, b). a < b})
    (\<lambda>(src, max_depth, g, processed, queue, log). queue_weight max_depth queue)")
  show "wf (inv_image (mult {(a, b). a < (b::nat)})
    (\<lambda>(src, max_depth, g, processed, queue, log). queue_weight max_depth queue))"
    by (intro wf_inv_image wf_mult) (simp add: wf)
next
  fix src :: publication_source and max_depth depth :: int and g :: nx_graph
    and processed :: "author set" and queue :: "(author \<times> int) list"
    and log :: "author list" and current_author :: author
    and x xa :: "author set" and xb :: nx_graph and x2 :: "arxiv_result list"
  assume "\<not> max_depth \<le> depth"
  then have d: "depth < max_depth" by simp
  from results_loop_queue [of current_author depth x x2 xb queue]
  obtain new where "snd (results_loop current_author depth x x2 (xb, queue)) = queue @ new"
    "\<forall>y \<in> set new. snd y = depth + 1" by blast
  with queue_weight_expand [OF d, of new queue current_author]
  show "((src, max_depth, fst (results_loop current_author depth x x2 (xb, queue)), x,
          snd (results_loop current_author depth x x2 (xb, queue)), log @ [current_author]),
         src, max_depth, g, processed, (current_author, depth) # queue, log)
        \<in> inv_image (mult {(a, b). a < b})
           (\<lambda>(src, max_depth, g, processed, queue, log). queue_weight max_depth queue)"
    by simp
qed (simp_all add: queue_weight_pop)

definition run_build :: "publication_source \<Rightarrow> author \<Rightarrow> int \<Rightarrow> run" where
  "run_build src start_author max_depth =
     while_loop src max_depth [] {} [(start_author, 0)] []"

definition build_collaboration_network ::
  "publication_source \<Rightarrow> author \<Rightarrow> int \<Rightarrow> error + nx_graph" where
  "build_collaboration_network src start_author max_depth =
     (let r = run_build src start_author max_depth
      in case raised r of Some e \<Rightarrow> Inl e | None \<Rightarrow> Inr (graph_of r))"

section \<open>Saving and loading edge files\<close>

text \<open>
  A CSV file is modelled as the list of its rows, each row the list of its
  fields: what \<open>csv.writer.writerow\<close> is given and what \<open>csv.reader\<close> yields.
  A folder is the list of its files in the order of \<open>os.listdir\<close>, each with
  its name.
\<close>

type_synonym csv_file = "string list list"

type_synonym folder = "(string \<times> csv_file) list"

definition endswith :: "string \<Rightarrow> string \<Rightarrow> bool" where
  "endswith s suffix =
     (length suffix \<le> length s \<and> drop (length s - length suffix) s = suffix)"

function str_nat :: "nat \<Rightarrow> string" where
  "str_nat n =
     (if n < 10 then [char_of (48 + n)]
      else str_nat (n div 10) @ [char_of (48 + n mod 10)])"
  by pat_completeness auto

termination str_nat
  by (relation "measure id") auto

declare str_nat.simps [simp del]

definition str_int :: "int \<Rightarrow> string" where
  "str_int i = (if i < 0 then CHR ''-'' # str_nat (nat (- i)) else str_nat (nat i))"

text \<open>The name of the file inside the folder \<open>../csv_database/\<close>.\<close>

definition csv_filename :: "author \<Rightarrow> int \<Rightarrow> string" where
  "csv_filename author max_depth =
     ''collaboration_network_'' @ filter (\<lambda>c. c \<noteq> CHR '' '') author
       @ ''_depth_'' @ str_int max_depth @ ''.csv''"

definition save_edges_to_csv :: "nx_graph \<Rightarrow> author \<Rightarrow> int \<Rightarrow> string \<times> csv_file" where
  "save_edges_to_csv g author max_depth =
     (csv_filename author max_depth,
      [''Author1'', ''Author2''] # map (\<lambda>(u, v). [u, v]) (edges g))"

text \<open>The loop over the rows that follow the header.\<close>

fun row_loop :: "nx_graph \<Rightarrow> csv_file \<Rightarrow> nx_graph" where
  "row_loop g [] = g"
| "row_loop g (row # rows) =
     row_loop (if length row = 2 then add_edge g (row ! 0) (row ! 1) else g) rows"

text \<open>
  The loop over the files of the folder.  \<open>next(reader)\<close> raises
  \<open>StopIteration\<close> on a file with no row, and nothing catches it.
\<close>

fun file_loop :: "nx_graph \<Rightarrow> folder \<Rightarrow> error + nx_graph" where
  "file_loop g [] = Inr g"
| "file_loop g ((filename, rows) # rest) =
     (if endswith filename ''.csv''
      then (case rows of
              [] \<Rightarrow> Inl StopIteration
            | header # data \<Rightarrow> file_loop (row_loop g data) rest)
      else file_loop g rest)"

definition load_all_csv_edges :: "folder \<Rightarrow> error + nx_graph" where
  "load_all_csv_edges csv_folder = file_loop [] csv_folder"

text \<open>
  Three notions for stating what loading does.  The data rows of a folder are
  the rows after the header of each file whose name ends in \<open>.csv\<close>, in
  the order of reading.
\<close>

definition data_rows :: "folder \<Rightarrow> csv_file" where
  "data_rows csv_folder =
     concat (map (\<lambda>(filename, rows). if endswith filename ''.csv'' then tl rows else [])
       csv_folder)"

text \<open>A file without its rows of a field count other than two.\<close>

definition drop_malformed :: "csv_file \<Rightarrow> csv_file" where
  "drop_malformed rows =
     (case rows of [] \<Rightarrow> [] | header # data \<Rightarrow> header # filter (\<lambda>row. length row = 2) data)"

text \<open>Every \<open>.csv\<close> file of the folder has at least its header row.\<close>

definition headers_present :: "folder \<Rightarrow> bool" where
  "headers_present csv_folder =
     list_all (\<lambda>(filename, rows). endswith filename ''.csv'' \<longrightarrow> rows \<noteq> []) csv_folder"

section \<open>Path queries\<close>

text \<open>
  Modelled from the spec: \<open>nx.shortest_path\<close> is a function of the networkx
  library and not part of the sources.  The specification describes it as an
  unweighted breadth-first search from the first author that records the
  predecessor of each node reached, stops when the second author is taken
  from the queue, and rebuilds the path by walking the predecessors back.
  It is modelled by \<open>visit\<close> (one node's neighbours), \<open>bfs\<close> (the search),
  \<open>path_back\<close> (the walk back) and \<open>shortest_path\<close>, where \<open>None\<close>
  stands for the exception \<open>NetworkXNoPath\<close>.
\<close>

fun visit ::
  "author \<Rightarrow> author list \<Rightarrow> (author \<times> author option) list \<times> author list \<Rightarrow>
   (author \<times> author option) list \<times> author list" where
  "visit u [] (pred, queue) = (pred, queue)"
| "visit u (v # vs) (pred, queue) =
     (if v \<in> fst ` set pred then visit u vs (pred, queue)
      else visit u vs (pred @ [(v, Some u)], queue @ [v]))"

fun path_back :: "(author \<times> author option) list \<Rightarrow> author \<Rightarrow> author list" where
  "path_back [] w = [w]"
| "path_back ((v, p) # rest) w =
     (if v = w then (case p of None \<Rightarrow> [w] | Some u \<Rightarrow> w # path_back rest u)
      else path_back rest w)"

lemma visit_result:
  "\<exists>new. visit u vs (pred, q) = (pred @ map (\<lambda>v. (v, Some u)) new, q @ new)
     \<and> distinct new \<and> set new = set vs - fst ` set pred"
proof (induction vs arbitrary: pred q)
  case Nil
  show ?case by simp
next
  case (Cons v vs)
  show ?case
  proof (cases "v \<in> fst ` set pred")
    case True
    with Cons.IH [of pred q] show ?thesis by auto
  next
    case False
    from Cons.IH [of "pred @ [(v, Some u)]" "q @ [v]"]
    obtain new where n: "visit u vs (pred @ [(v, Some u)], q @ [v])
        = ((pred @ [(v, Some u)]) @ map (\<lambda>v. (v, Some u)) new, (q @ [v]) @ new)"
      "distinct new" "set new = set vs - fst ` set (pred @ [(v, Some u)])"
      by blast
    have "visit u (v # vs) (pred, q)
        = (pred @ map (\<lambda>v. (v, Some u)) (v # new), q @ (v # new))"
      using False n(1) by simp
    moreover have "distinct (v # new)" using n(2,3) by auto
    moreover have "set (v # new) = set (v # vs) - fst ` set pred"
      using False n(3) by auto
    ultimately show ?thesis by blast
  qed
qed

definition all_neighbors :: "nx_graph \<Rightarrow> author set" where
  "all_neighbors g = (\<Union>(n, ns) \<in> set g. set ns)"

function bfs ::
  "nx_graph \<Rightarrow> author \<Rightarrow> (author \<times> author option) list \<Rightarrow> author list \<Rightarrow>
   (author \<times> author option) list option" where
  "bfs g target pred [] = None"
| "bfs g target pred (u # queue) =
     (if u = target then Some pred
      else bfs g target (fst (visit u (neighbors g u) (pred, queue)))
             (snd (visit u (neighbors g u) (pred, queue))))"
  by pat_completeness auto

lemma neighbors_subset: "set (neighbors g u) \<subseteq> all_neighbors g"
proof (cases "map_of g u")
  case None
  then show ?thesis by (simp add: neighbors_def)
next
  case (Some ns)
  then have "(u, ns) \<in> set g" by (rule map_of_SomeD)
  then show ?thesis using Some by (auto simp: neighbors_def all_neighbors_def)
qed

lemma finite_all_neighbors: "finite (all_neighbors g)"
  by (auto simp: all_neighbors_def)

termination bfs
proof (relation "measure (\<lambda>(g, target, pred, queue).
    2 * card (all_neighbors g - fst ` set pred) + length queue)")
  show "wf (measure (\<lambda>(g, target, pred, queue).
    2 * card (all_neighbors g - fst ` set pred) + length queue))"
    by simp
next
  fix g :: nx_graph and target u :: author and pred :: "(author \<times> author option) list"
    and queue :: "author list"
  from visit_result [of u "neighbors g u" pred queue]
  obtain new where n: "visit u (neighbors g u) (pred, queue)
      = (pred @ map (\<lambda>v. (v, Some u)) new, queue @ new)"
    "distinct new" "set new = set (neighbors g u) - fst ` set pred"
    by blast
  let ?U = "all_neighbors g - fst ` set pred"
  have sub: "set new \<subseteq> ?U" using n(3) neighbors_subset [of g u] by auto
  have keys: "fst ` set (pred @ map (\<lambda>v. (v, Some u)) new) = fst ` set pred \<union> set new"
    by (auto simp: image_Un image_image)
  have "all_neighbors g - (fst ` set pred \<union> set new) = ?U - set new" by auto
  then have "card (all_neighbors g - (fst ` set pred \<union> set new)) = card ?U - card (set new)"
    using sub finite_all_neighbors [of g] by (simp add: card_Diff_subset finite_subset)
  moreover have "card (set new) = length new" using n(2) by (simp add: distinct_card)
  moreover have "length new \<le> card ?U"
    using sub finite_all_neighbors [of g] n(2)
    by (metis card_mono distinct_card finite_Diff)
  ultimately show "((g, target, fst (visit u (neighbors g u) (pred, queue)),
       snd (visit u (neighbors g u) (pred, queue))), g, target, pred, u # queue)
      \<in> measure (\<lambda>(g, target, pred, queue).
          2 * card (all_neighbors g - fst ` set pred) + length queue)"
    using n(1) keys by simp
qed

definition shortest_path :: "nx_graph \<Rightarrow> author \<Rightarrow> author \<Rightarrow> author list option" where
  "shortest_path g source target =
     (case bfs g target [(source, None)] [source] of
        None \<Rightarrow> None
      | Some pred \<Rightarrow> Some (rev (path_back (rev pred) target)))"

text \<open>
  \<open>find_connection\<close> prints one of three messages; the outcome names the
  message and carries what it prints.
\<close>

datatype outcome = NotFound author | NoPath | Path "author list"

definition find_connection :: "nx_graph \<Rightarrow> author \<Rightarrow> author \<Rightarrow> outcome" where
  "find_connection g author1 author2 =
     (if \<not> has_node g author1 then NotFound author1
      else if \<not> has_node g author2 then NotFound author2
      else (case shortest_path g author1 author2 of
              Some path \<Rightarrow> Path path
            | None \<Rightarrow> NoPath))"

text \<open>The number printed as ``Degrees of separation''.\<close>

definition degrees_of_separation :: "author list \<Rightarrow> int" where
  "degrees_of_separation path = int (length path) - 1"

text \<open>Two authors are connected when a chain of edges leads from one to the other.\<close>

definition connected :: "nx_graph \<Rightarrow> author \<Rightarrow> author \<Rightarrow> bool" where
  "connected g x y = ((x, y) \<in> {(u, v). has_edge g u v}\<^sup>*)"

text \<open>
  Two notions for stating what the search returns.  A walk is a list of
  authors in which each one has an edge to the next.
\<close>

fun walk :: "nx_graph \<Rightarrow> author list \<Rightarrow> bool" where
  "walk g [] = True"
| "walk g [x] = True"
| "walk g (x # y # rest) = (has_edge g x y \<and> walk g (y # rest))"

text \<open>
  A predecessor record, read from the latest entry back, is in order when its
  first entry is the source without predecessor and every other entry names
  as predecessor an earlier entry that has an edge to it.
\<close>

fun pred_ok :: "nx_graph \<Rightarrow> author \<Rightarrow> (author \<times> author option) list \<Rightarrow> bool" where
  "pred_ok g s [] = False"
| "pred_ok g s ((v, p) # rest) =
     (case p of
        None \<Rightarrow> rest = [] \<and> v = s
      | Some u \<Rightarrow> u \<in> fst ` set rest \<and> has_edge g u v \<and> pred_ok g s rest)"

section \<open>Sources, graphs and folders used as examples\<close>

text \<open>
  The stub of the specification: \<open>A\<close> has one publication with \<open>B\<close> and \<open>C\<close>,
  \<open>B\<close> has one with \<open>A\<close> and \<open>D\<close>, every other author has none.
\<close>

definition stub_source :: publication_source where
  "stub_source a =
     (if a = ''A'' then Inr [Result [''B'', ''C'']]
      else if a = ''B'' then Inr [Result [''A'', ''D'']]
      else Inr [])"

text \<open>
  A source that is unreachable for \<open>B\<close> only: \<open>A\<close> has a publication with \<open>B\<close>
  and \<open>C\<close>, and \<open>C\<close> has one with \<open>D\<close>.
\<close>

definition failing_source :: publication_source where
  "failing_source a =
     (if a = ''A'' then Inr [Result [''A'', ''B'', ''C'']]
      else if a = ''B'' then Inl SourceUnavailable
      else if a = ''C'' then Inr [Result [''C'', ''D'']]
      else Inr [])"

text \<open>
  A source in which \<open>C\<close> is reached twice: \<open>A\<close> has a publication with \<open>B\<close>
  and \<open>C\<close>, \<open>B\<close> has one with \<open>C\<close>, and \<open>C\<close> has one with \<open>D\<close>.
\<close>

definition diamond_source :: publication_source where
  "diamond_source a =
     (if a = ''A'' then Inr [Result [''A'', ''B'', ''C'']]
      else if a = ''B'' then Inr [Result [''B'', ''C'']]
      else if a = ''C'' then Inr [Result [''C'', ''D'']]
      else Inr [])"

text \<open>The graph of that source once \<open>A\<close> has been expanded.\<close>

definition after_first_author :: nx_graph where
  "after_first_author = [(''A'', [''B'', ''C'']), (''B'', [''A'']), (''C'', [''A''])]"

text \<open>A graph of two components: the edge \<open>A\<close>--\<open>B\<close> and the lone node \<open>C\<close>.\<close>

definition two_components :: nx_graph where
  "two_components = [(''A'', [''B'']), (''B'', [''A'']), (''C'', [])]"

text \<open>The chain \<open>A\<close>--\<open>B\<close>--\<open>C\<close>--\<open>D\<close>.\<close>

definition chain :: nx_graph where
  "chain = [(''A'', [''B'']), (''B'', [''A'', ''C'']), (''C'', [''B'', ''D'']), (''D'', [''C''])]"

text \<open>
  A folder with one edge file, which holds a row of three fields and an empty
  row among its data rows, and one file that is not an edge file.
\<close>

definition folder_with_malformed_row :: folder where
  "folder_with_malformed_row =
     [(''edges.csv'',
       [[''Author1'', ''Author2''], [''A'', ''B''], [''x'', ''y'', ''z''], [], [''C'', ''B'']]),
      (''notes.txt'', [])]"

section \<open>Facts about the graph operations\<close>

lemmas graph_defs = add_edge_def add_node_def has_node_def nodes_def get_coauthors_def
  neighbors_def has_edge_def edges_def

lemma has_node_iff: "has_node g n = (map_of g n \<noteq> None)"
  by (simp add: has_node_def nodes_def map_of_eq_None_iff)

lemma map_of_add_node:
  "map_of (add_node g n) a = (if a = n \<and> \<not> has_node g n then Some [] else map_of g a)"
proof (cases "map_of g a")
  case None
  then show ?thesis
    by (auto simp: add_node_def has_node_iff map_add_def)
next
  case (Some ns)
  then have "has_node g a" by (simp add: has_node_iff)
  then show ?thesis using Some
    by (auto simp: add_node_def map_add_def)
qed

lemma map_of_add_nbr:
  "map_of (add_nbr g u v) a =
     (if a = u then map_option (\<lambda>ns. if v \<in> set ns then ns else ns @ [v]) (map_of g u)
      else map_of g a)"
  by (induction g u v rule: add_nbr.induct) auto

lemma nodes_add_nbr: "nodes (add_nbr g u v) = nodes g"
  by (induction g u v rule: add_nbr.induct) (auto simp: nodes_def)

lemma has_node_add_node: "has_node (add_node g n) a = (has_node g a \<or> a = n)"
  by (auto simp: has_node_iff map_of_add_node)

lemma has_node_add_nbr: "has_node (add_nbr g u v) a = has_node g a"
  by (simp add: has_node_def nodes_add_nbr)

lemma has_node_add_edge: "has_node (add_edge g u v) a = (has_node g a \<or> a = u \<or> a = v)"
  by (auto simp: add_edge_def has_node_add_nbr has_node_add_node)

lemma has_edge_add_node: "has_edge (add_node g n) a b = has_edge g a b"
  by (auto simp: has_edge_def neighbors_def map_of_add_node has_node_iff split: option.splits)

lemma has_edge_add_nbr:
  "has_edge (add_nbr g u v) a b = (has_edge g a b \<or> (a = u \<and> b = v \<and> has_node g u))"
proof (cases "map_of g u")
  case None
  then show ?thesis
    by (simp add: has_edge_def neighbors_def map_of_add_nbr has_node_iff)
next
  case (Some ns)
  then show ?thesis
    by (auto simp: has_edge_def neighbors_def map_of_add_nbr has_node_iff)
qed

lemma has_edge_add_edge:
  "has_edge (add_edge g u v) a b = (has_edge g a b \<or> (a = u \<and> b = v) \<or> (a = v \<and> b = u))"
  unfolding add_edge_def
  by (auto simp: has_edge_add_nbr has_node_add_nbr has_node_add_node has_edge_add_node)

lemma has_edge_empty: "\<not> has_edge [] a b"
  by (simp add: has_edge_def neighbors_def)

lemma has_node_empty: "\<not> has_node [] n"
  by (simp add: has_node_def nodes_def)

lemma neighbors_add_node: "neighbors (add_node g n) a = neighbors g a"
  by (simp add: neighbors_def map_of_add_node has_node_iff)

lemma neighbors_add_nbr:
  "neighbors (add_nbr g u v) a =
     (if a = u \<and> has_node g u \<and> v \<notin> set (neighbors g u) then neighbors g u @ [v]
      else neighbors g a)"
  by (cases "map_of g u") (auto simp: neighbors_def map_of_add_nbr has_node_iff)

lemma nodes_add_node: "nodes (add_node g n) = (if has_node g n then nodes g else nodes g @ [n])"
  by (simp add: add_node_def nodes_def)

lemma distinct_nodes_add_node: "distinct (nodes g) \<Longrightarrow> distinct (nodes (add_node g n))"
  by (simp add: nodes_add_node has_node_def)

lemma distinct_nodes_add_edge: "distinct (nodes g) \<Longrightarrow> distinct (nodes (add_edge g u v))"
  by (simp add: add_edge_def nodes_add_nbr distinct_nodes_add_node)

lemma distinct_neighbors_add_edge:
  "\<forall>n. distinct (neighbors g n) \<Longrightarrow> distinct (neighbors (add_edge g u v) a)"
  by (simp add: add_edge_def neighbors_add_nbr neighbors_add_node)

lemma map_of_distinct_nodes:
  "distinct (nodes g) \<Longrightarrow> (n, ns) \<in> set g \<Longrightarrow> map_of g n = Some ns"
  by (simp add: nodes_def)

lemma neighbors_entry:
  "distinct (nodes g) \<Longrightarrow> (n, ns) \<in> set g \<Longrightarrow> neighbors g n = ns"
  by (simp add: neighbors_def map_of_distinct_nodes)

lemma has_edge_entry:
  assumes "has_edge g a b"
  shows "\<exists>ns. (a, ns) \<in> set g \<and> b \<in> set ns"
proof (cases "map_of g a")
  case None
  then show ?thesis using assms by (simp add: has_edge_def neighbors_def)
next
  case (Some ns)
  then have "(a, ns) \<in> set g" by (rule map_of_SomeD)
  then show ?thesis using Some assms by (auto simp: has_edge_def neighbors_def)
qed

subsection \<open>The representation invariant\<close>

lemma wf_graph_iff:
  "wf_graph g \<longleftrightarrow>
     distinct (nodes g) \<and> (\<forall>n. distinct (neighbors g n))
     \<and> (\<forall>u v. has_edge g u v \<longrightarrow> has_edge g v u)"
proof (cases "distinct (nodes g)")
  case False
  then show ?thesis by (simp add: wf_graph_def)
next
  case True
  have d: "list_all (\<lambda>(n, ns). distinct ns) g \<longleftrightarrow> (\<forall>n. distinct (neighbors g n))"
  proof
    assume l: "list_all (\<lambda>(n, ns). distinct ns) g"
    show "\<forall>n. distinct (neighbors g n)"
    proof
      fix n
      show "distinct (neighbors g n)"
      proof (cases "map_of g n")
        case None
        then show ?thesis by (simp add: neighbors_def)
      next
        case (Some ns)
        then have "(n, ns) \<in> set g" by (rule map_of_SomeD)
        then have "distinct ns" using l by (auto simp: list_all_iff)
        then show ?thesis using Some by (simp add: neighbors_def)
      qed
    qed
  next
    assume r: "\<forall>n. distinct (neighbors g n)"
    show "list_all (\<lambda>(n, ns). distinct ns) g"
      unfolding list_all_iff
    proof
      fix x assume x: "x \<in> set g"
      obtain n ns where nn: "x = (n, ns)" by (cases x)
      have "neighbors g n = ns" using neighbors_entry [OF True] x nn by simp
      then show "case x of (n, ns) \<Rightarrow> distinct ns" using r nn by auto
    qed
  qed
  have s: "list_all (\<lambda>(n, ns). list_all (\<lambda>v. n \<in> set (neighbors g v)) ns) g
      \<longleftrightarrow> (\<forall>u v. has_edge g u v \<longrightarrow> has_edge g v u)"
  proof
    assume l: "list_all (\<lambda>(n, ns). list_all (\<lambda>v. n \<in> set (neighbors g v)) ns) g"
    show "\<forall>u v. has_edge g u v \<longrightarrow> has_edge g v u"
    proof (intro allI impI)
      fix u v assume "has_edge g u v"
      then obtain ns where "(u, ns) \<in> set g" "v \<in> set ns"
        using has_edge_entry by blast
      then show "has_edge g v u" using l by (auto simp: list_all_iff has_edge_def)
    qed
  next
    assume r: "\<forall>u v. has_edge g u v \<longrightarrow> has_edge g v u"
    show "list_all (\<lambda>(n, ns). list_all (\<lambda>v. n \<in> set (neighbors g v)) ns) g"
      unfolding list_all_iff
    proof
      fix x assume x: "x \<in> set g"
      obtain n ns where nn: "x = (n, ns)" by (cases x)
      have ne: "neighbors g n = ns" using neighbors_entry [OF True] x nn by simp
      have "\<forall>v \<in> set ns. n \<in> set (neighbors g v)"
      proof
        fix v assume "v \<in> set ns"
        then have "has_edge g n v" using ne by (simp add: has_edge_def)
        then have "has_edge g v n" using r by blast
        then show "n \<in> set (neighbors g v)" by (simp add: has_edge_def)
      qed
      then show "case x of (n, ns) \<Rightarrow> \<forall>v \<in> set ns. n \<in> set (neighbors g v)"
        using nn by simp
    qed
  qed
  show ?thesis using True d s by (simp add: wf_graph_def)
qed

lemma wf_graph_empty: "wf_graph []"
  by (simp add: wf_graph_def nodes_def)

lemma wf_graph_add_node: "wf_graph g \<Longrightarrow> wf_graph (add_node g n)"
  unfolding wf_graph_iff
  by (simp add: distinct_nodes_add_node neighbors_add_node has_edge_add_node)

lemma wf_graph_add_edge: "wf_graph g \<Longrightarrow> wf_graph (add_edge g u v)"
  unfolding wf_graph_iff
proof (intro conjI)
  assume a: "distinct (nodes g) \<and> (\<forall>n. distinct (neighbors g n))
     \<and> (\<forall>u v. has_edge g u v \<longrightarrow> has_edge g v u)"
  show "distinct (nodes (add_edge g u v))"
    using a by (simp add: distinct_nodes_add_edge)
  show "\<forall>n. distinct (neighbors (add_edge g u v) n)"
    using a by (simp add: distinct_neighbors_add_edge)
  show "\<forall>a b. has_edge (add_edge g u v) a b \<longrightarrow> has_edge (add_edge g u v) b a"
    using a unfolding has_edge_add_edge by blast
qed

lemma wf_graph_row_loop: "wf_graph g \<Longrightarrow> wf_graph (row_loop g rows)"
  by (induction rows arbitrary: g) (simp_all add: wf_graph_add_edge)

lemma wf_graph_loaded: "wf_graph (row_loop [] rows)"
  by (rule wf_graph_row_loop [OF wf_graph_empty])

lemma wf_graph_entries:
  assumes "wf_graph g"
  shows "distinct (map fst g)" and "\<forall>(n, ns) \<in> set g. distinct ns"
  using assms by (auto simp: wf_graph_def nodes_def list_all_iff)

lemma wf_two_components: "wf_graph two_components"
  by (simp add: wf_graph_def two_components_def nodes_def neighbors_def)

subsection \<open>The edge listing\<close>

lemma edges_from_entry:
  "(a, b) \<in> set (edges_from seen g) \<Longrightarrow> \<exists>ns. (a, ns) \<in> set g \<and> b \<in> set ns"
proof (induction g arbitrary: seen)
  case Nil
  then show ?case by simp
next
  case (Cons p g)
  obtain n ms where p: "p = (n, ms)" by (cases p)
  show ?case
  proof (cases "(a, b) \<in> set (edges_from (n # seen) g)")
    case True
    from Cons.IH [OF this] show ?thesis by auto
  next
    case False
    then have "a = n \<and> b \<in> set ms" using Cons.prems by (auto simp: p)
    then show ?thesis by (auto simp: p)
  qed
qed

lemma edges_from_unseen:
  "(a, b) \<in> set (edges_from seen g) \<Longrightarrow> b \<notin> set seen"
proof (induction g arbitrary: seen)
  case Nil
  then show ?case by simp
next
  case (Cons p g)
  obtain n ms where p: "p = (n, ms)" by (cases p)
  show ?case
  proof (cases "(a, b) \<in> set (edges_from (n # seen) g)")
    case True
    from Cons.IH [OF this] show ?thesis by simp
  next
    case False
    then show ?thesis using Cons.prems by (auto simp: p)
  qed
qed

lemma edges_from_reported:
  "b \<in> set ns \<Longrightarrow> b \<notin> set seen \<Longrightarrow> b \<notin> fst ` set pre \<Longrightarrow>
   (a, b) \<in> set (edges_from seen (pre @ (a, ns) # post))"
proof (induction pre arbitrary: seen)
  case Nil
  then show ?case by simp
next
  case (Cons p pre)
  obtain n ms where p: "p = (n, ms)" by (cases p)
  have "b \<notin> set (n # seen)" "b \<notin> fst ` set pre"
    using Cons.prems p by auto
  from Cons.IH [OF Cons.prems(1) this] show ?case by (simp add: p)
qed

lemma edges_from_one_end:
  "(a, b) \<in> set (edges_from seen g) \<Longrightarrow> (b, a) \<in> set (edges_from seen g) \<Longrightarrow> a = b"
proof (induction g arbitrary: seen)
  case Nil
  then show ?case by simp
next
  case (Cons p g)
  obtain n ms where p: "p = (n, ms)" by (cases p)
  have u: "\<And>x. (x, n) \<notin> set (edges_from (n # seen) g)"
    using edges_from_unseen [of _ n "n # seen" g] by auto
  show ?case
  proof (cases "(a, b) \<in> set (edges_from (n # seen) g)")
    case True
    then have "b \<noteq> n" using u by blast
    then have "(b, a) \<in> set (edges_from (n # seen) g)"
      using Cons.prems(2) by (auto simp: p)
    with True show ?thesis by (rule Cons.IH)
  next
    case False
    then have "a = n" using Cons.prems(1) by (auto simp: p)
    then have "(b, a) \<notin> set (edges_from (n # seen) g)" using u by simp
    then show ?thesis using Cons.prems(2) \<open>a = n\<close> by (auto simp: p)
  qed
qed

lemma distinct_edges_from:
  "distinct (map fst g) \<Longrightarrow> \<forall>(n, ns) \<in> set g. distinct ns \<Longrightarrow>
   distinct (edges_from seen g)"
proof (induction g arbitrary: seen)
  case Nil
  show ?case by simp
next
  case (Cons p g)
  obtain n ms where p: "p = (n, ms)" by (cases p)
  have n: "n \<notin> fst ` set g" and dg: "distinct (map fst g)" and dm: "distinct ms"
    and dn: "\<forall>(n, ns) \<in> set g. distinct ns"
    using Cons.prems by (auto simp: p)
  have "distinct (map (Pair n) (filter (\<lambda>v. v \<notin> set seen) ms))"
    using dm by (simp add: distinct_map inj_on_def)
  moreover have "distinct (edges_from (n # seen) g)"
    by (rule Cons.IH [OF dg dn])
  moreover have "\<And>b. (n, b) \<notin> set (edges_from (n # seen) g)"
  proof
    fix b assume "(n, b) \<in> set (edges_from (n # seen) g)"
    then obtain ns where "(n, ns) \<in> set g" using edges_from_entry by blast
    then have "n \<in> fst ` set g" by force
    with n show False by simp
  qed
  ultimately show ?case by (auto simp: p)
qed

lemma distinct_edges: "wf_graph g \<Longrightarrow> distinct (edges g)"
  unfolding edges_def by (rule distinct_edges_from) (simp_all add: wf_graph_entries)

lemma edges_has_edge:
  assumes "wf_graph g" and "(a, b) \<in> set (edges g)"
  shows "has_edge g a b"
proof -
  obtain ns where ns: "(a, ns) \<in> set g" "b \<in> set ns"
    using assms(2) edges_from_entry unfolding edges_def by blast
  have "distinct (nodes g)" using assms(1) by (simp add: wf_graph_def)
  from neighbors_entry [OF this ns(1)] ns(2) show ?thesis by (simp add: has_edge_def)
qed

lemma edges_one_end:
  "(a, b) \<in> set (edges g) \<Longrightarrow> (b, a) \<in> set (edges g) \<Longrightarrow> a = b"
  unfolding edges_def by (rule edges_from_one_end)

lemma has_edge_edges:
  assumes wf: "wf_graph g" and e: "has_edge g a b"
  shows "(a, b) \<in> set (edges g) \<or> (b, a) \<in> set (edges g)"
proof -
  have dn: "distinct (nodes g)" and sym: "\<forall>u v. has_edge g u v \<longrightarrow> has_edge g v u"
    using wf by (simp_all add: wf_graph_iff)
  obtain ns where ns: "(a, ns) \<in> set g" "b \<in> set ns"
    using has_edge_entry [OF e] by blast
  obtain pre post where g: "g = pre @ (a, ns) # post"
    using ns(1) by (meson split_list)
  show ?thesis
  proof (cases "b \<in> fst ` set pre")
    case False
    have "(a, b) \<in> set (edges_from [] (pre @ (a, ns) # post))"
      by (rule edges_from_reported [OF ns(2) _ False]) simp
    then show ?thesis by (simp add: edges_def g)
  next
    case True
    then obtain ms where ms: "(b, ms) \<in> set pre" by auto
    then obtain pre1 pre2 where pre: "pre = pre1 @ (b, ms) # pre2"
      by (meson split_list)
    have "(b, ms) \<in> set g" using ms g by simp
    then have "neighbors g b = ms" by (rule neighbors_entry [OF dn])
    moreover have "has_edge g b a" using sym e by blast
    ultimately have am: "a \<in> set ms" by (simp add: has_edge_def)
    have "a \<notin> fst ` set pre"
      using dn unfolding g nodes_def by auto
    then have "a \<notin> fst ` set pre1" by (auto simp: pre)
    have "(b, a) \<in> set (edges_from [] (pre1 @ (b, ms) # (pre2 @ (a, ns) # post)))"
      by (rule edges_from_reported [OF am _ \<open>a \<notin> fst ` set pre1\<close>]) simp
    then show ?thesis by (simp add: edges_def g pre)
  qed
qed

lemma edges_between:
  assumes wf: "wf_graph g" and e: "has_edge g a b"
  shows "length (filter (\<lambda>e. e = (a, b) \<or> e = (b, a)) (edges g)) = 1"
proof -
  define S where "S = {e. e = (a, b) \<or> e = (b, a)} \<inter> set (edges g)"
  have len: "length (filter (\<lambda>e. e = (a, b) \<or> e = (b, a)) (edges g)) = card S"
    unfolding S_def by (rule distinct_length_filter [OF distinct_edges [OF wf]])
  have mem: "\<And>x. x \<in> S \<longleftrightarrow> (x = (a, b) \<or> x = (b, a)) \<and> x \<in> set (edges g)"
    by (simp add: S_def)
  have "\<exists>x. S = {x}"
  proof (cases "(a, b) \<in> set (edges g)")
    case True
    have "S = {(a, b)}"
    proof (rule set_eqI)
      fix x
      show "x \<in> S \<longleftrightarrow> x \<in> {(a, b)}"
      proof
        assume "x \<in> S"
        then have x: "x = (a, b) \<or> x = (b, a)" "x \<in> set (edges g)"
          by (simp_all add: mem)
        show "x \<in> {(a, b)}"
        proof (cases "x = (a, b)")
          case True
          then show ?thesis by simp
        next
          case False
          then have xb: "x = (b, a)" using x(1) by simp
          then have "(b, a) \<in> set (edges g)" using x(2) by simp
          from edges_one_end [OF True this] xb show ?thesis by simp
        qed
      next
        assume "x \<in> {(a, b)}"
        then show "x \<in> S" using True by (simp add: mem)
      qed
    qed
    then show ?thesis by blast
  next
    case False
    then have ba: "(b, a) \<in> set (edges g)" using has_edge_edges [OF wf e] by simp
    have "S = {(b, a)}"
    proof (rule set_eqI)
      fix x
      show "x \<in> S \<longleftrightarrow> x \<in> {(b, a)}"
      proof
        assume "x \<in> S"
        then have x: "x = (a, b) \<or> x = (b, a)" "x \<in> set (edges g)"
          by (simp_all add: mem)
        then have "x \<noteq> (a, b)" using False by blast
        then show "x \<in> {(b, a)}" using x(1) by simp
      next
        assume "x \<in> {(b, a)}"
        then show "x \<in> S" using ba by (simp add: mem)
      qed
    qed
    then show ?thesis by blast
  qed
  then obtain x where "S = {x}" by blast
  then have "card S = 1" by simp
  with len show ?thesis by simp
qed

section \<open>Facts about the build\<close>

lemma coauthor_loop_graph:
  assumes "\<And>g u v. P g \<Longrightarrow> u \<noteq> v \<Longrightarrow> P (add_edge g u v)"
  shows "P g \<Longrightarrow> P (fst (coauthor_loop c d p cs (g, q)))"
  by (induction cs arbitrary: g q) (simp_all add: assms)

lemma results_loop_graph:
  assumes "\<And>g u v. P g \<Longrightarrow> u \<noteq> v \<Longrightarrow> P (add_edge g u v)"
  shows "P g \<Longrightarrow> P (fst (results_loop c d p rs (g, q)))"
proof (induction rs arbitrary: g q)
  case Nil
  then show ?case by simp
next
  case (Cons r rs)
  obtain g1 q1 where s: "coauthor_loop c d p (get_coauthors r) (g, q) = (g1, q1)"
    by (cases "coauthor_loop c d p (get_coauthors r) (g, q)")
  have "P g1"
    using coauthor_loop_graph [of P g c d p "get_coauthors r" q, OF assms Cons.prems] s
    by simp
  from Cons.IH [OF this, of q1] show ?case using s by simp
qed

lemma while_loop_graph:
  assumes edge: "\<And>g u v. P g \<Longrightarrow> u \<noteq> v \<Longrightarrow> P (add_edge g u v)"
    and node: "\<And>g n. P g \<Longrightarrow> P (add_node g n)"
  shows "P g \<Longrightarrow> P (graph_of (while_loop src m g p q log))"
proof (induction src m g p q log rule: while_loop.induct)
  case (1 src max_depth g processed log)
  then show ?case by simp
next
  case (2 src max_depth g processed current_author depth queue log)
  define p' where "p' = insert current_author processed"
  define g' where "g' = (if \<not> has_node g current_author then add_node g current_author else g)"
  have g': "P g'"
    using "2.prems" by (simp add: g'_def node)
  show ?case
  proof (cases "current_author \<in> processed")
    case True
    then show ?thesis using "2.IH"(1) "2.prems" by simp
  next
    case False
    note np = this
    show ?thesis
    proof (cases "max_depth \<le> depth")
      case True
      from "2.IH"(2) [OF np p'_def g'_def True g']
      show ?thesis using np True by (simp add: p'_def g'_def Let_def)
    next
      case False
      note nd = this
      show ?thesis
      proof (cases "src current_author")
        case (Inl e)
        then show ?thesis using np nd g' by (simp add: g'_def Let_def)
      next
        case (Inr results)
        show ?thesis
        proof (cases "results = []")
          case True
          from "2.IH"(3) [OF np p'_def g'_def nd Inr True g']
          show ?thesis using np nd Inr True by (simp add: p'_def g'_def Let_def)
        next
          case False
          have "P (fst (results_loop current_author depth p' results (g', queue)))"
            by (rule results_loop_graph [of P, OF edge g'])
          from "2.IH"(4) [OF np p'_def g'_def nd Inr False this]
          show ?thesis using np nd Inr False by (simp add: p'_def g'_def Let_def)
        qed
      qed
    qed
  qed
qed

lemma while_loop_queried_distinct:
  "set log \<subseteq> p \<Longrightarrow> distinct log \<Longrightarrow> distinct (queried (while_loop src m g p q log))"
proof (induction src m g p q log rule: while_loop.induct)
  case (1 src max_depth g processed log)
  then show ?case by simp
next
  case (2 src max_depth g processed current_author depth queue log)
  define p' where "p' = insert current_author processed"
  define g' where "g' = (if \<not> has_node g current_author then add_node g current_author else g)"
  show ?case
  proof (cases "current_author \<in> processed")
    case True
    then show ?thesis using "2.IH"(1) "2.prems" by simp
  next
    case False
    note np = this
    have sub: "set log \<subseteq> p'"
      using "2.prems"(1) by (auto simp: p'_def)
    have sub': "set (log @ [current_author]) \<subseteq> p'"
      using "2.prems"(1) by (auto simp: p'_def)
    have dist: "distinct (log @ [current_author])"
      using "2.prems" np by auto
    show ?thesis
    proof (cases "max_depth \<le> depth")
      case True
      from "2.IH"(2) [OF np p'_def g'_def True sub "2.prems"(2)]
      show ?thesis using np True by (simp add: p'_def g'_def Let_def)
    next
      case False
      note nd = this
      show ?thesis
      proof (cases "src current_author")
        case (Inl e)
        then show ?thesis using np nd dist by (simp add: Let_def)
      next
        case (Inr results)
        show ?thesis
        proof (cases "results = []")
          case True
          from "2.IH"(3) [OF np p'_def g'_def nd Inr True sub' dist]
          show ?thesis using np nd Inr True by (simp add: p'_def g'_def Let_def)
        next
          case False
          from "2.IH"(4) [OF np p'_def g'_def nd Inr False sub' dist]
          show ?thesis using np nd Inr False by (simp add: p'_def g'_def Let_def)
        qed
      qed
    qed
  qed
qed

lemma run_build_no_self: "\<not> has_edge (graph_of (run_build src seed max_depth)) a a"
proof -
  have "\<forall>a. \<not> has_edge (graph_of (run_build src seed max_depth)) a a"
    unfolding run_build_def
    by (rule while_loop_graph [where P = "\<lambda>g. \<forall>a. \<not> has_edge g a a"])
      (simp_all add: has_edge_add_edge has_edge_add_node has_edge_empty)
  then show ?thesis by simp
qed

lemma wf_graph_run_build: "wf_graph (graph_of (run_build src seed max_depth))"
  unfolding run_build_def
  by (rule while_loop_graph [where P = wf_graph])
    (simp_all add: wf_graph_add_edge wf_graph_add_node wf_graph_empty)

lemma run_build_depth_zero:
  "run_build src seed 0 = \<lparr>graph_of = [(seed, [])], queried = [], raised = None\<rparr>"
  by (simp add: run_build_def graph_defs)

lemma run_build_stub:
  "run_build stub_source ''A'' 1 =
     \<lparr>graph_of = [(''A'', [''B'', ''C'']), (''B'', [''A'']), (''C'', [''A''])],
      queried = [''A''], raised = None\<rparr>"
  by (simp add: run_build_def stub_source_def graph_defs)

lemma run_build_failing:
  "run_build failing_source ''A'' 2 =
     \<lparr>graph_of = [(''A'', [''B'', ''C'']), (''B'', [''A'']), (''C'', [''A''])],
      queried = [''A'', ''B''], raised = Some SourceUnavailable\<rparr>"
  by (simp add: run_build_def failing_source_def graph_defs)

subsection \<open>The branches of the loop\<close>

text \<open>The graph with the author taken from the queue made a node.\<close>

definition ensure_node :: "nx_graph \<Rightarrow> author \<Rightarrow> nx_graph" where
  "ensure_node g c = (if \<not> has_node g c then add_node g c else g)"

lemma while_loop_skip:
  "c \<in> p \<Longrightarrow> while_loop src m g p ((c, d) # q) log = while_loop src m g p q log"
  by simp

lemma while_loop_leaf:
  "c \<notin> p \<Longrightarrow> m \<le> d \<Longrightarrow>
   while_loop src m g p ((c, d) # q) log = while_loop src m (ensure_node g c) (insert c p) q log"
  by (simp add: ensure_node_def Let_def)

lemma while_loop_fail:
  "c \<notin> p \<Longrightarrow> d < m \<Longrightarrow> src c = Inl e \<Longrightarrow>
   while_loop src m g p ((c, d) # q) log
     = \<lparr>graph_of = ensure_node g c, queried = log @ [c], raised = Some e\<rparr>"
  by (simp add: ensure_node_def Let_def)

lemma while_loop_empty:
  "c \<notin> p \<Longrightarrow> d < m \<Longrightarrow> src c = Inr [] \<Longrightarrow>
   while_loop src m g p ((c, d) # q) log
     = while_loop src m (ensure_node g c) (insert c p) q (log @ [c])"
  by (simp add: ensure_node_def Let_def)

lemma while_loop_expand:
  "c \<notin> p \<Longrightarrow> d < m \<Longrightarrow> src c = Inr rs \<Longrightarrow> rs \<noteq> [] \<Longrightarrow>
   while_loop src m g p ((c, d) # q) log
     = while_loop src m (fst (results_loop c d (insert c p) rs (ensure_node g c, q)))
         (insert c p) (snd (results_loop c d (insert c p) rs (ensure_node g c, q)))
         (log @ [c])"
  by (simp add: ensure_node_def Let_def)

lemma while_loop_branches [case_names finished skip leaf fail empty expand]:
  fixes src :: publication_source and m :: int
  assumes finished: "\<And>g p log. P g p [] log"
    and skip: "\<And>g p c d q log. c \<in> p \<Longrightarrow> P g p q log \<Longrightarrow> P g p ((c, d) # q) log"
    and leaf: "\<And>g p c d q log. c \<notin> p \<Longrightarrow> m \<le> d \<Longrightarrow>
        P (ensure_node g c) (insert c p) q log \<Longrightarrow> P g p ((c, d) # q) log"
    and fail: "\<And>g p c d q log e. c \<notin> p \<Longrightarrow> d < m \<Longrightarrow> src c = Inl e \<Longrightarrow>
        P g p ((c, d) # q) log"
    and empty: "\<And>g p c d q log. c \<notin> p \<Longrightarrow> d < m \<Longrightarrow> src c = Inr [] \<Longrightarrow>
        P (ensure_node g c) (insert c p) q (log @ [c]) \<Longrightarrow> P g p ((c, d) # q) log"
    and expand: "\<And>g p c d q log rs. c \<notin> p \<Longrightarrow> d < m \<Longrightarrow> src c = Inr rs \<Longrightarrow> rs \<noteq> [] \<Longrightarrow>
        P (fst (results_loop c d (insert c p) rs (ensure_node g c, q))) (insert c p)
          (snd (results_loop c d (insert c p) rs (ensure_node g c, q))) (log @ [c]) \<Longrightarrow>
        P g p ((c, d) # q) log"
  shows "P g p q log"
proof -
  have "s = src \<Longrightarrow> md = m \<Longrightarrow> P g p q log" for s md
  proof (induction s md g p q log rule: while_loop.induct)
    case (1 s md g p log)
    show ?case by (rule finished)
  next
    case (2 s md g p c d q log)
    note s = "2.prems"(1) and md = "2.prems"(2)
    define p' where "p' = insert c p"
    define g' where "g' = (if \<not> has_node g c then add_node g c else g)"
    have ge: "g' = ensure_node g c"
      by (simp add: g'_def ensure_node_def)
    show ?case
    proof (cases "c \<in> p")
      case True
      from skip [OF True "2.IH"(1) [OF True s md]] show ?thesis .
    next
      case False
      note np = this
      show ?thesis
      proof (cases "md \<le> d")
        case True
        from "2.IH"(2) [OF np p'_def g'_def True s md]
        show ?thesis unfolding p'_def ge by (rule leaf [OF np True [unfolded md]])
      next
        case False
        note nd = this
        then have lt: "d < m" using md by simp
        show ?thesis
        proof (cases "s c")
          case (Inl e)
          show ?thesis by (rule fail [OF np lt Inl [unfolded s]])
        next
          case (Inr results)
          show ?thesis
          proof (cases "results = []")
            case True
            from "2.IH"(3) [OF np p'_def g'_def nd Inr True s md]
            show ?thesis unfolding p'_def ge
              by (rule empty [OF np lt Inr [unfolded True s]])
          next
            case False
            from "2.IH"(4) [OF np p'_def g'_def nd Inr False s md]
            show ?thesis unfolding p'_def ge
              by (rule expand [OF np lt Inr [unfolded s] False])
          qed
        qed
      qed
    qed
  qed
  then show ?thesis by simp
qed

lemma queried_keeps_log:
  "set log \<subseteq> set (queried (while_loop src m g p q log))"
proof (induction g p q log rule: while_loop_branches [where src = src and m = m])
  case (finished g p log)
  show ?case by simp
next
  case (skip g p c d q log)
  then show ?case by (simp add: while_loop_skip del: while_loop.simps)
next
  case (leaf g p c d q log)
  then show ?case by (simp add: while_loop_leaf del: while_loop.simps)
next
  case (fail g p c d q log e)
  then show ?case by (auto simp add: while_loop_fail simp del: while_loop.simps)
next
  case (empty g p c d q log)
  then show ?case by (auto simp add: while_loop_empty simp del: while_loop.simps)
next
  case (expand g p c d q log rs)
  then show ?case by (auto simp add: while_loop_expand simp del: while_loop.simps)
qed

lemma queried_not_processed:
  "x \<in> p \<Longrightarrow> x \<notin> set log \<Longrightarrow> x \<notin> set (queried (while_loop src m g p q log))"
proof (induction g p q log rule: while_loop_branches [where src = src and m = m])
  case (finished g p log)
  then show ?case by simp
next
  case (skip g p c d q log)
  from skip.IH [OF skip.prems] show ?case
    using skip.hyps by (simp add: while_loop_skip del: while_loop.simps)
next
  case (leaf g p c d q log)
  have "x \<in> insert c p" using leaf.prems(1) by simp
  from leaf.IH [OF this leaf.prems(2)] show ?case
    using leaf.hyps by (simp add: while_loop_leaf del: while_loop.simps)
next
  case (fail g p c d q log e)
  then have "x \<noteq> c" by blast
  then show ?case using fail by (simp add: while_loop_fail del: while_loop.simps)
next
  case (empty g p c d q log)
  then have "x \<noteq> c" by blast
  then show ?case using empty by (simp add: while_loop_empty del: while_loop.simps)
next
  case (expand g p c d q log rs)
  then have "x \<noteq> c" by blast
  then show ?case using expand by (simp add: while_loop_expand del: while_loop.simps)
qed

lemma first_record_decides:
  "b \<notin> p \<Longrightarrow> set log \<subseteq> p \<Longrightarrow> map_of q b = Some d \<Longrightarrow>
   (b \<in> set (queried (while_loop src m g p q log)) \<longrightarrow> d < m)
   \<and> (d < m \<and> raised (while_loop src m g p q log) = None \<longrightarrow>
        b \<in> set (queried (while_loop src m g p q log)))"
proof (induction g p q log rule: while_loop_branches [where src = src and m = m])
  case (finished g p log)
  then show ?case by simp
next
  case (skip g p c dc q log)
  then have "c \<noteq> b" by blast
  then have "map_of q b = Some d" using skip.prems(3) by simp
  from skip.IH [OF skip.prems(1,2) this] show ?case
    using skip.hyps by (simp add: while_loop_skip del: while_loop.simps)
next
  case (leaf g p c dc q log)
  show ?case
  proof (cases "c = b")
    case True
    then have d: "dc = d" using leaf.prems(3) by simp
    have "b \<notin> set log" using leaf.prems(1,2) by blast
    then have "b \<notin> set (queried (while_loop src m (ensure_node g c) (insert c p) q log))"
      using True by (intro queried_not_processed) simp_all
    then show ?thesis
      using leaf.hyps d by (simp add: while_loop_leaf del: while_loop.simps)
  next
    case False
    then have "map_of q b = Some d" using leaf.prems(3) by simp
    moreover have "b \<notin> insert c p" using False leaf.prems(1) by simp
    moreover have "set log \<subseteq> insert c p" using leaf.prems(2) by blast
    ultimately show ?thesis
      using leaf.IH leaf.hyps by (simp add: while_loop_leaf del: while_loop.simps)
  qed
next
  case (fail g p c dc q log e)
  have nl: "b \<notin> set log" using fail.prems(1,2) by blast
  show ?case
  proof (cases "c = b")
    case True
    then have "dc = d" using fail.prems(3) by simp
    then show ?thesis
      using fail.hyps True by (simp add: while_loop_fail del: while_loop.simps)
  next
    case False
    then show ?thesis
      using fail.hyps nl by (simp add: while_loop_fail del: while_loop.simps)
  qed
next
  case (empty g p c dc q log)
  show ?case
  proof (cases "c = b")
    case True
    then have d: "dc = d" using empty.prems(3) by simp
    have "b \<in> set (queried (while_loop src m (ensure_node g c) (insert c p) q (log @ [c])))"
      using queried_keeps_log [of "log @ [c]" src m "ensure_node g c" "insert c p" q] True
      by auto
    then show ?thesis
      using empty.hyps d by (simp add: while_loop_empty del: while_loop.simps)
  next
    case False
    then have "map_of q b = Some d" using empty.prems(3) by simp
    moreover have "b \<notin> insert c p" using False empty.prems(1) by simp
    moreover have "set (log @ [c]) \<subseteq> insert c p" using empty.prems(2) by auto
    ultimately show ?thesis
      using empty.IH empty.hyps by (simp add: while_loop_empty del: while_loop.simps)
  qed
next
  case (expand g p c dc q log rs)
  let ?r = "results_loop c dc (insert c p) rs (ensure_node g c, q)"
  show ?case
  proof (cases "c = b")
    case True
    then have d: "dc = d" using expand.prems(3) by simp
    have "b \<in> set (queried (while_loop src m (fst ?r) (insert c p) (snd ?r) (log @ [c])))"
      using queried_keeps_log [of "log @ [c]" src m "fst ?r" "insert c p" "snd ?r"] True
      by auto
    then show ?thesis
      using expand.hyps d by (simp add: while_loop_expand del: while_loop.simps)
  next
    case False
    then have mq: "map_of q b = Some d" using expand.prems(3) by simp
    obtain new where "snd ?r = q @ new"
      using results_loop_queue [of c dc "insert c p" rs "ensure_node g c" q] by blast
    then have "map_of (snd ?r) b = Some d"
      using mq by (simp add: map_add_def)
    moreover have "b \<notin> insert c p" using False expand.prems(1) by simp
    moreover have "set (log @ [c]) \<subseteq> insert c p" using expand.prems(2) by auto
    ultimately show ?thesis
      using expand.IH expand.hyps by (simp add: while_loop_expand del: while_loop.simps)
  qed
qed

lemma head_record_decides:
  assumes "c \<notin> p" and "c \<notin> set log"
  shows "c \<in> set (queried (while_loop src m g p ((c, d) # q) log)) \<longleftrightarrow> d < m"
proof (cases "d < m")
  case False
  then have le: "m \<le> d" by simp
  have "c \<notin> set (queried (while_loop src m (ensure_node g c) (insert c p) q log))"
    using assms(2) by (intro queried_not_processed) simp_all
  then show ?thesis
    using False assms(1) le by (simp add: while_loop_leaf del: while_loop.simps)
next
  case True
  show ?thesis
  proof (cases "src c")
    case (Inl e)
    show ?thesis
      using True assms(1) Inl by (simp add: while_loop_fail del: while_loop.simps)
  next
    case (Inr rs)
    show ?thesis
    proof (cases "rs = []")
      case e: True
      have "c \<in> set (queried (while_loop src m (ensure_node g c) (insert c p) q (log @ [c])))"
        using queried_keeps_log [of "log @ [c]" src m "ensure_node g c" "insert c p" q] by auto
      then show ?thesis
        using True assms(1) Inr e
        by (simp add: while_loop_empty del: while_loop.simps)
    next
      case ne: False
      let ?r = "results_loop c d (insert c p) rs (ensure_node g c, q)"
      have "c \<in> set (queried (while_loop src m (fst ?r) (insert c p) (snd ?r) (log @ [c])))"
        using queried_keeps_log [of "log @ [c]" src m "fst ?r" "insert c p" "snd ?r"] by auto
      then show ?thesis
        using True assms(1) Inr ne
        by (simp add: while_loop_expand del: while_loop.simps)
    qed
  qed
qed

lemma seed_queried_iff:
  "seed \<in> set (queried (run_build src seed max_depth)) \<longleftrightarrow> 0 < max_depth"
  unfolding run_build_def by (rule head_record_decides) simp_all

lemma run_build_diamond:
  "run_build diamond_source ''A'' 2 =
     \<lparr>graph_of = [(''A'', [''B'', ''C'']), (''B'', [''A'', ''C'']), (''C'', [''A'', ''B'', ''D'']),
                  (''D'', [''C''])],
      queried = [''A'', ''B'', ''C''], raised = None\<rparr>"
  by (simp add: run_build_def diamond_source_def graph_defs)

lemma while_loop_diamond:
  "while_loop diamond_source 2 after_first_author {''A''} [(''B'', 1), (''C'', 1)] [''A''] =
     \<lparr>graph_of = [(''A'', [''B'', ''C'']), (''B'', [''A'', ''C'']), (''C'', [''A'', ''B'', ''D'']),
                  (''D'', [''C''])],
      queried = [''A'', ''B'', ''C''], raised = None\<rparr>"
  by (simp add: after_first_author_def diamond_source_def graph_defs)

lemma results_loop_diamond:
  "snd (results_loop ''B'' 1 {''A'', ''B''} [Result [''B'', ''C'']]
          (after_first_author, [(''C'', 1)])) = [(''C'', 1), (''C'', 2)]"
  by (simp add: get_coauthors_def)

section \<open>Claims about the build\<close>

text \<open>
  C1 (the code departs from the claim).  With a source that fails for \<open>B\<close> only,
  the build started at \<open>A\<close> with depth 2 does not return a graph: the failure
  of the query for \<open>B\<close> leaves the function, and \<open>C\<close>, which was queued after
  \<open>B\<close>, is never queried.
\<close>

theorem build_aborts_on_source_failure:
  "build_collaboration_network failing_source ''A'' 2 = Inl SourceUnavailable
   \<and> queried (run_build failing_source ''A'' 2) = [''A'', ''B'']
   \<and> failing_source ''C'' = Inr [Result [''C'', ''D'']]"
  by (simp add: build_collaboration_network_def run_build_failing)
    (simp add: failing_source_def)

text \<open>
  C3.  Whatever the source and the seed, a build of depth 0 returns the graph
  with the seed as its only node and no edge, and does not query the source.
\<close>

theorem build_depth_zero:
  "\<exists>g. build_collaboration_network src seed 0 = Inr g
     \<and> nodes g = [seed] \<and> number_of_nodes g = 1
     \<and> edges g = [] \<and> number_of_edges g = 0
     \<and> queried (run_build src seed 0) = []"
  by (simp add: build_collaboration_network_def run_build_depth_zero nodes_def edges_def
      number_of_nodes_def number_of_edges_def)

text \<open>
  C4.  With the stub source, the build started at \<open>A\<close> with depth 1 returns the
  graph with the nodes \<open>A\<close>, \<open>B\<close>, \<open>C\<close> and the edges \<open>(A,B)\<close>, \<open>(A,C)\<close>;
  \<open>D\<close> is not a node, and only \<open>A\<close> is queried.
\<close>

theorem build_stub_depth_one:
  "\<exists>g. build_collaboration_network stub_source ''A'' 1 = Inr g
     \<and> nodes g = [''A'', ''B'', ''C'']
     \<and> edges g = [(''A'', ''B''), (''A'', ''C'')]
     \<and> \<not> has_node g ''D''
     \<and> queried (run_build stub_source ''A'' 1) = [''A'']"
  by (simp add: build_collaboration_network_def run_build_stub nodes_def edges_def has_node_def)

text \<open>
  C5.  In every run of the build, no author is queried twice, and the seed
  is queried exactly when the maximal depth is positive.  A record taken
  from the queue for an author already processed is dropped, whatever its
  depth.  The records of an expansion are put behind all queued records,
  with the depth of the expanded author plus one, so that an expansion
  leaves the first record of every queued author as it is.  At every point
  of the loop, the first record in the queue of an author not yet processed
  decides: the author is queried only if the depth of that record is below
  the maximum, and in that case it is queried unless an exception ends the
  run before.  No record of an unprocessed author has left the queue, and
  records are added at its end only, so that first record is the one of the
  author's first enqueue.
\<close>

theorem build_queries_each_author_once:
  "distinct (queried (run_build src seed max_depth))
   \<and> (seed \<in> set (queried (run_build src seed max_depth)) \<longleftrightarrow> 0 < max_depth)
   \<and> while_loop src max_depth g (insert a processed) ((a, d) # queue) log
       = while_loop src max_depth g (insert a processed) queue log
   \<and> (\<exists>new. snd (results_loop c dc pc results (gc, qc)) = qc @ new
         \<and> (\<forall>x \<in> set new. snd x = dc + 1))
   \<and> (map_of qc b = Some db \<longrightarrow>
        map_of (snd (results_loop c dc pc results (gc, qc))) b = Some db)
   \<and> (b \<notin> pb \<and> set lb \<subseteq> pb \<and> map_of qb b = Some db \<longrightarrow>
        (b \<in> set (queried (while_loop src max_depth gb pb qb lb)) \<longrightarrow> db < max_depth)
        \<and> (db < max_depth \<and> raised (while_loop src max_depth gb pb qb lb) = None \<longrightarrow>
              b \<in> set (queried (while_loop src max_depth gb pb qb lb))))"
proof (intro conjI impI)
  show "distinct (queried (run_build src seed max_depth))"
    unfolding run_build_def by (rule while_loop_queried_distinct) simp_all
  show "seed \<in> set (queried (run_build src seed max_depth)) \<longleftrightarrow> 0 < max_depth"
    by (rule seed_queried_iff)
  show "while_loop src max_depth g (insert a processed) ((a, d) # queue) log
      = while_loop src max_depth g (insert a processed) queue log"
    by simp
  show "\<exists>new. snd (results_loop c dc pc results (gc, qc)) = qc @ new
      \<and> (\<forall>x \<in> set new. snd x = dc + 1)"
    by (rule results_loop_queue)
next
  assume m: "map_of qc b = Some db"
  obtain new where "snd (results_loop c dc pc results (gc, qc)) = qc @ new"
    using results_loop_queue [of c dc pc results gc qc] by blast
  then show "map_of (snd (results_loop c dc pc results (gc, qc))) b = Some db"
    using m by (simp add: map_add_def)
next
  assume h: "b \<notin> pb \<and> set lb \<subseteq> pb \<and> map_of qb b = Some db"
    and q: "b \<in> set (queried (while_loop src max_depth gb pb qb lb))"
  from h have "b \<notin> pb" "set lb \<subseteq> pb" "map_of qb b = Some db" by simp_all
  from first_record_decides [OF this, of src max_depth gb] q
  show "db < max_depth" by blast
next
  assume h: "b \<notin> pb \<and> set lb \<subseteq> pb \<and> map_of qb b = Some db"
    and r: "db < max_depth \<and> raised (while_loop src max_depth gb pb qb lb) = None"
  from h have "b \<notin> pb" "set lb \<subseteq> pb" "map_of qb b = Some db" by simp_all
  from first_record_decides [OF this, of src max_depth gb] r
  show "b \<in> set (queried (while_loop src max_depth gb pb qb lb))" by blast
qed

theorem build_queries_each_author_once_witness:
  "''C'' \<notin> {''A''} \<and> set [''A''] \<subseteq> {''A''}
   \<and> map_of [(''B'', 1), (''C'', 1 :: int)] ''C'' = Some 1
   \<and> (1 :: int) < 2
   \<and> raised (while_loop diamond_source 2 after_first_author {''A''}
         [(''B'', 1), (''C'', 1)] [''A'']) = None
   \<and> ''C'' \<in> set (queried (while_loop diamond_source 2 after_first_author {''A''}
         [(''B'', 1), (''C'', 1)] [''A'']))
   \<and> snd (results_loop ''B'' 1 {''A'', ''B''} [Result [''B'', ''C'']]
         (after_first_author, [(''C'', 1)])) = [(''C'', 1), (''C'', 2)]
   \<and> map_of [(''C'', 1), (''C'', 2 :: int)] ''C'' = Some 1
   \<and> queried (run_build diamond_source ''A'' 2) = [''A'', ''B'', ''C'']"
proof -
  have h: "''C'' \<notin> {''A''}" "set [''A''] \<subseteq> {''A''}"
    "map_of [(''B'', 1), (''C'', 1 :: int)] ''C'' = Some 1" "(1 :: int) < 2"
    "map_of [(''C'', 1), (''C'', 2 :: int)] ''C'' = Some 1"
    by simp_all
  have r: "raised (while_loop diamond_source 2 after_first_author {''A''}
         [(''B'', 1), (''C'', 1)] [''A'']) = None"
    by (simp only: while_loop_diamond run.simps)
  have "''C'' \<in> set (queried (while_loop diamond_source 2 after_first_author {''A''}
         [(''B'', 1), (''C'', 1)] [''A'']))"
    using h r
      build_queries_each_author_once [where src = diamond_source and max_depth = 2
        and b = "''C''" and db = 1 and pb = "{''A''}" and lb = "[''A'']"
        and qb = "[(''B'', 1), (''C'', 1)]" and gb = after_first_author
        and c = "''B''" and dc = 1 and pc = "{''A'', ''B''}"
        and results = "[Result [''B'', ''C'']]" and gc = after_first_author
        and qc = "[(''C'', 1)]" and seed = "''A''" and a = "''A''" and d = 0
        and processed = "{}" and queue = "[]" and log = "[]" and g = "[]"]
    by blast
  then show ?thesis
    using h r results_loop_diamond
    by (simp only: run_build_diamond run.simps simp_thms)
qed

section \<open>Facts about the path query\<close>

lemma connected_refl: "connected g x x"
  by (simp add: connected_def)

lemma connected_step: "connected g s u \<Longrightarrow> has_edge g u v \<Longrightarrow> connected g s v"
  unfolding connected_def by (rule rtrancl_into_rtrancl) auto

lemma visit_queue:
  "set (snd (visit u vs (pred, q))) \<subseteq> set q \<union> set vs"
  using visit_result [of u vs pred q] by auto

lemma bfs_sound:
  "\<forall>x \<in> set queue. connected g s x \<Longrightarrow> bfs g t pred queue = Some p \<Longrightarrow> connected g s t"
proof (induction g t pred queue rule: bfs.induct)
  case (1 g target pred)
  then show ?case by simp
next
  case (2 g target pred u queue)
  show ?case
  proof (cases "u = target")
    case True
    then show ?thesis using "2.prems"(1) by simp
  next
    case False
    have "\<forall>x \<in> set (snd (visit u (neighbors g u) (pred, queue))). connected g s x"
    proof
      fix x assume "x \<in> set (snd (visit u (neighbors g u) (pred, queue)))"
      then have "x \<in> set queue \<or> x \<in> set (neighbors g u)"
        using visit_queue [of u "neighbors g u" pred queue] by auto
      then show "connected g s x"
        using "2.prems"(1) connected_step [of g s u x] by (auto simp: has_edge_def)
    qed
    from "2.IH" [OF False this] "2.prems"(2) False show ?thesis by simp
  qed
qed

lemma bfs_complete:
  assumes "set queue \<subseteq> fst ` set pred"
    and "t \<in> fst ` set pred \<longrightarrow> t \<in> set queue"
    and "\<forall>u \<in> fst ` set pred - set queue. \<forall>v. has_edge g u v \<longrightarrow> v \<in> fst ` set pred"
    and "s \<in> fst ` set pred"
    and "connected g s t"
  shows "bfs g t pred queue \<noteq> None"
  using assms
proof (induction g t pred queue rule: bfs.induct)
  case (1 g target pred)
  have "\<And>y. (s, y) \<in> {(u, v). has_edge g u v}\<^sup>* \<Longrightarrow> y \<in> fst ` set pred"
  proof -
    fix y assume "(s, y) \<in> {(u, v). has_edge g u v}\<^sup>*"
    then show "y \<in> fst ` set pred"
    proof (induction rule: rtrancl_induct)
      case base
      show ?case by (rule "1.prems"(4))
    next
      case (step y z)
      then have "has_edge g y z" by simp
      moreover have "y \<in> fst ` set pred - set []" using step.IH by simp
      ultimately show ?case using "1.prems"(3) by blast
    qed
  qed
  then have "target \<in> fst ` set pred" using "1.prems"(5) by (simp add: connected_def)
  then show ?case using "1.prems"(2) by simp
next
  case (2 g target pred u queue)
  show ?case
  proof (cases "u = target")
    case True
    then show ?thesis by simp
  next
    case False
    from visit_result [of u "neighbors g u" pred queue]
    obtain new where n: "visit u (neighbors g u) (pred, queue)
        = (pred @ map (\<lambda>v. (v, Some u)) new, queue @ new)"
      "set new = set (neighbors g u) - fst ` set pred"
      by blast
    define V where "V = fst ` set pred"
    define pred' where "pred' = pred @ map (\<lambda>v. (v, Some u)) new"
    have keys: "fst ` set pred' = V \<union> set new"
      by (auto simp: pred'_def V_def image_Un image_image)
    have new: "set new = set (neighbors g u) - V"
      using n(2) by (simp add: V_def)
    have p1: "set (u # queue) \<subseteq> V" using "2.prems"(1) by (simp add: V_def)
    have p2: "target \<in> V \<longrightarrow> target \<in> set (u # queue)"
      using "2.prems"(2) by (simp add: V_def)
    have p3: "\<And>w v. w \<in> V \<Longrightarrow> w \<notin> set (u # queue) \<Longrightarrow> has_edge g w v \<Longrightarrow> v \<in> V"
      using "2.prems"(3) unfolding V_def by blast
    have a: "set (queue @ new) \<subseteq> fst ` set pred'"
      using p1 unfolding keys by auto
    have b: "target \<in> fst ` set pred' \<longrightarrow> target \<in> set (queue @ new)"
      using p2 False unfolding keys by auto
    have c: "\<forall>w \<in> fst ` set pred' - set (queue @ new).
        \<forall>v. has_edge g w v \<longrightarrow> v \<in> fst ` set pred'"
    proof (intro ballI allI impI)
      fix w v assume w: "w \<in> fst ` set pred' - set (queue @ new)" and e: "has_edge g w v"
      from w have wV: "w \<in> V" "w \<notin> set queue" unfolding keys by auto
      show "v \<in> fst ` set pred'"
      proof (cases "w = u")
        case True
        then have "v \<in> set (neighbors g u)" using e by (simp add: has_edge_def)
        then show ?thesis unfolding keys new by blast
      next
        case False
        then have "w \<notin> set (u # queue)" using wV(2) by simp
        from p3 [OF wV(1) this e] show ?thesis unfolding keys by blast
      qed
    qed
    have d: "s \<in> fst ` set pred'" using "2.prems"(4) unfolding keys V_def by blast
    have "bfs g target pred' (queue @ new) \<noteq> None"
      using "2.IH" [OF False] a b c d "2.prems"(5) n(1) unfolding pred'_def by simp
    then show ?thesis using n(1) False unfolding pred'_def by simp
  qed
qed

lemma bfs_start: "bfs g t [(s, None)] [s] \<noteq> None \<longleftrightarrow> connected g s t"
proof
  assume "bfs g t [(s, None)] [s] \<noteq> None"
  then obtain p where "bfs g t [(s, None)] [s] = Some p" by blast
  then show "connected g s t"
    by (rule bfs_sound [rotated]) (simp add: connected_refl)
next
  assume "connected g s t"
  then show "bfs g t [(s, None)] [s] \<noteq> None"
    by (intro bfs_complete [where s = s]) simp_all
qed

lemma shortest_path_None_iff:
  "shortest_path g s t = None \<longleftrightarrow> \<not> connected g s t"
proof (cases "bfs g t [(s, None)] [s]")
  case None
  then show ?thesis using bfs_start [of g t s]
    by (simp add: shortest_path_def del: bfs.simps)
next
  case (Some p)
  then show ?thesis using bfs_start [of g t s]
    by (simp add: shortest_path_def del: bfs.simps)
qed

lemma shortest_path_same: "shortest_path g x x = Some [x]"
  by (simp add: shortest_path_def)

lemma walk_snoc:
  "walk g (xs @ [x]) \<Longrightarrow> has_edge g x y \<Longrightarrow> walk g (xs @ [x, y])"
  by (induction g xs rule: walk.induct) auto

lemma path_back_cons: "\<exists>zs. path_back rp w = w # zs"
  by (induction rp w rule: path_back.induct) (auto split: option.splits)

lemma path_back_walk:
  "pred_ok g s rp \<Longrightarrow> w \<in> fst ` set rp \<Longrightarrow>
   last (path_back rp w) = s \<and> walk g (rev (path_back rp w))"
proof (induction rp arbitrary: w)
  case Nil
  then show ?case by simp
next
  case (Cons e rest)
  obtain v p where e: "e = (v, p)" by (cases e)
  show ?case
  proof (cases "v = w")
    case False
    then have "w \<in> fst ` set rest" using Cons.prems(2) by (simp add: e)
    moreover have "pred_ok g s rest"
      using Cons.prems(1) calculation by (cases p) (auto simp: e)
    ultimately have "last (path_back rest w) = s \<and> walk g (rev (path_back rest w))"
      by (rule Cons.IH [rotated])
    then show ?thesis using False by (simp add: e)
  next
    case True
    show ?thesis
    proof (cases p)
      case None
      then have "v = s" using Cons.prems(1) by (simp add: e)
      then show ?thesis using True None by (simp add: e)
    next
      case (Some u)
      then have u: "u \<in> fst ` set rest" and uv: "has_edge g u v" and ok: "pred_ok g s rest"
        using Cons.prems(1) by (simp_all add: e)
      from Cons.IH [OF ok u]
      have l: "last (path_back rest u) = s" and wk: "walk g (rev (path_back rest u))"
        by simp_all
      obtain zs where zs: "path_back rest u = u # zs"
        using path_back_cons by blast
      have "walk g (rev zs @ [u, w])"
        using walk_snoc [of g "rev zs" u w] wk uv True zs by simp
      moreover have "path_back (e # rest) w = w # u # zs"
        using True Some zs by (simp add: e)
      ultimately show ?thesis using l zs by simp
    qed
  qed
qed

lemma visit_pred_ok:
  "pred_ok g s (rev pred) \<Longrightarrow> u \<in> fst ` set pred \<Longrightarrow> \<forall>v \<in> set vs. has_edge g u v \<Longrightarrow>
   pred_ok g s (rev (fst (visit u vs (pred, q))))"
proof (induction vs arbitrary: pred q)
  case Nil
  then show ?case by simp
next
  case (Cons v vs)
  have vs: "\<forall>x \<in> set vs. has_edge g u x" and uv: "has_edge g u v"
    using Cons.prems(3) by simp_all
  show ?case
  proof (cases "v \<in> fst ` set pred")
    case True
    from Cons.IH [OF Cons.prems(1,2) vs, of q] True show ?thesis by simp
  next
    case False
    have ok: "pred_ok g s (rev (pred @ [(v, Some u)]))"
      using Cons.prems(1,2) uv by simp
    have u: "u \<in> fst ` set (pred @ [(v, Some u)])"
      using Cons.prems(2) by simp
    from Cons.IH [OF ok u vs, of "q @ [v]"] False show ?thesis by simp
  qed
qed

lemma bfs_pred_ok:
  "pred_ok g s (rev pred) \<Longrightarrow> set queue \<subseteq> fst ` set pred \<Longrightarrow>
   bfs g t pred queue = Some pred' \<Longrightarrow>
   pred_ok g s (rev pred') \<and> t \<in> fst ` set pred'"
proof (induction g t pred queue rule: bfs.induct)
  case (1 g target pred)
  then show ?case by simp
next
  case (2 g target pred u queue)
  show ?case
  proof (cases "u = target")
    case True
    then show ?thesis using "2.prems" by auto
  next
    case False
    have u: "u \<in> fst ` set pred" using "2.prems"(2) by simp
    have nb: "\<forall>v \<in> set (neighbors g u). has_edge g u v"
      by (simp add: has_edge_def)
    have ok: "pred_ok g s (rev (fst (visit u (neighbors g u) (pred, queue))))"
      by (rule visit_pred_ok [OF "2.prems"(1) u nb])
    from visit_result [of u "neighbors g u" pred queue]
    obtain new where n: "visit u (neighbors g u) (pred, queue)
        = (pred @ map (\<lambda>v. (v, Some u)) new, queue @ new)"
      by blast
    have keys: "fst ` set (pred @ map (\<lambda>v. (v, Some u)) new) = fst ` set pred \<union> set new"
      by (auto simp: image_Un image_image)
    have sub: "set (snd (visit u (neighbors g u) (pred, queue)))
        \<subseteq> fst ` set (fst (visit u (neighbors g u) (pred, queue)))"
      unfolding n fst_conv snd_conv keys using "2.prems"(2) by auto
    have "bfs g target (fst (visit u (neighbors g u) (pred, queue)))
        (snd (visit u (neighbors g u) (pred, queue))) = Some pred'"
      using "2.prems"(3) False by simp
    from "2.IH" [OF False ok sub this] show ?thesis .
  qed
qed

lemma shortest_path_walk:
  assumes "shortest_path g s t = Some p"
  shows "hd p = s \<and> last p = t \<and> walk g p"
proof -
  from assms obtain pred where b: "bfs g t [(s, None)] [s] = Some pred"
    and p: "p = rev (path_back (rev pred) t)"
    by (auto simp: shortest_path_def simp del: bfs.simps split: option.splits)
  have "pred_ok g s (rev pred) \<and> t \<in> fst ` set pred"
    by (rule bfs_pred_ok [OF _ _ b]) simp_all
  then have ok: "pred_ok g s (rev pred)" and t: "t \<in> fst ` set (rev pred)"
    by simp_all
  from path_back_walk [OF ok t]
  have l: "last (path_back (rev pred) t) = s" and w: "walk g (rev (path_back (rev pred) t))"
    by simp_all
  obtain zs where zs: "path_back (rev pred) t = t # zs"
    using path_back_cons by blast
  have "path_back (rev pred) t \<noteq> []" using zs by simp
  then have "hd p = s" using l unfolding p by (simp only: hd_rev)
  moreover have "last p = t" by (simp add: p zs)
  ultimately show ?thesis using w p by simp
qed

lemma chain_path:
  "find_connection chain ''A'' ''D'' = Path [''A'', ''B'', ''C'', ''D'']
   \<and> degrees_of_separation [''A'', ''B'', ''C'', ''D''] = 3"
  by (simp add: find_connection_def shortest_path_def chain_def has_node_def nodes_def
      neighbors_def degrees_of_separation_def)

lemma two_components_reach:
  "connected two_components ''A'' y \<Longrightarrow> y = ''A'' \<or> y = ''B''"
  unfolding connected_def
proof (induction rule: rtrancl_induct)
  case base
  show ?case by simp
next
  case (step y z)
  then show ?case
    by (auto simp: has_edge_def neighbors_def two_components_def split: if_splits)
qed

lemma two_components_apart: "\<not> connected two_components ''A'' ''C''"
  using two_components_reach [of "''C''"] by auto

section \<open>Claim about the path query\<close>

text \<open>
  C6.  A first author that is not a node gives the outcome ``not found'' for
  that author; two nodes that no chain of edges joins give ``no connection'';
  a node queried against itself gives the path of that node alone, with 0
  degrees of separation.
\<close>

theorem find_connection_outcomes:
  "(\<not> has_node g x \<longrightarrow> find_connection g x y = NotFound x)
   \<and> (has_node g x \<and> has_node g y \<and> \<not> connected g x y \<longrightarrow> find_connection g x y = NoPath)
   \<and> (has_node g x \<longrightarrow>
        find_connection g x x = Path [x] \<and> degrees_of_separation [x] = 0)"
proof (intro conjI impI)
  assume "\<not> has_node g x"
  then show "find_connection g x y = NotFound x"
    by (simp add: find_connection_def)
next
  assume "has_node g x \<and> has_node g y \<and> \<not> connected g x y"
  moreover from this have "shortest_path g x y = None"
    by (simp add: shortest_path_None_iff)
  ultimately show "find_connection g x y = NoPath"
    by (simp add: find_connection_def)
next
  assume "has_node g x"
  then show "find_connection g x x = Path [x]"
    by (simp add: find_connection_def shortest_path_same)
next
  show "degrees_of_separation [x] = 0"
    by (simp add: degrees_of_separation_def)
qed

theorem find_connection_outcomes_witness:
  "\<not> has_node two_components ''Z''
   \<and> find_connection two_components ''Z'' ''A'' = NotFound ''Z''
   \<and> has_node two_components ''A'' \<and> has_node two_components ''C''
   \<and> \<not> connected two_components ''A'' ''C''
   \<and> find_connection two_components ''A'' ''C'' = NoPath
   \<and> find_connection two_components ''A'' ''A'' = Path [''A'']"
proof -
  have z: "\<not> has_node two_components ''Z''"
    by (simp add: has_node_def nodes_def two_components_def)
  have a: "has_node two_components ''A''"
    by (simp add: has_node_def nodes_def two_components_def)
  have c: "has_node two_components ''C''"
    by (simp add: has_node_def nodes_def two_components_def)
  show ?thesis
    using z a c two_components_apart
      find_connection_outcomes [of two_components "''Z''" "''A''"]
      find_connection_outcomes [of two_components "''A''" "''C''"]
    by simp
qed

section \<open>Facts about loading and saving\<close>

lemma file_loop_empty_file:
  "(name, []) \<in> set folder \<Longrightarrow> endswith name ''.csv'' \<Longrightarrow> file_loop g folder = Inl StopIteration"
proof (induction folder arbitrary: g)
  case Nil
  then show ?case by simp
next
  case (Cons f folder)
  obtain n rows where f: "f = (n, rows)" by (cases f)
  show ?case
  proof (cases "f = (name, [])")
    case True
    then show ?thesis using Cons.prems(2) by simp
  next
    case False
    then have "(name, []) \<in> set folder" using Cons.prems(1) by simp
    from Cons.IH [OF this Cons.prems(2)] show ?thesis
      by (simp add: f split: list.splits)
  qed
qed

lemma two_fields_iff: "length row = 2 \<longleftrightarrow> (\<exists>a b. row = [a, b])"
proof
  assume "length row = 2"
  then show "\<exists>a b. row = [a, b]"
    by (cases row; cases "tl row") auto
next
  assume "\<exists>a b. row = [a, b]"
  then show "length row = 2" by auto
qed

lemma has_edge_row_loop_edge:
  assumes "\<And>g. has_edge (row_loop g rows) a b
     = (has_edge g a b \<or> [a, b] \<in> set rows \<or> [b, a] \<in> set rows)"
  shows "has_edge (row_loop g ([u, v] # rows)) a b
     = (has_edge g a b \<or> [a, b] \<in> set ([u, v] # rows) \<or> [b, a] \<in> set ([u, v] # rows))"
proof -
  have "has_edge (row_loop g ([u, v] # rows)) a b
      = (has_edge (add_edge g u v) a b \<or> [a, b] \<in> set rows \<or> [b, a] \<in> set rows)"
    by (simp add: assms)
  also have "\<dots> = ((has_edge g a b \<or> (a = u \<and> b = v) \<or> (a = v \<and> b = u))
       \<or> [a, b] \<in> set rows \<or> [b, a] \<in> set rows)"
    by (simp only: has_edge_add_edge)
  also have "\<dots> = (has_edge g a b \<or> [a, b] \<in> set ([u, v] # rows) \<or> [b, a] \<in> set ([u, v] # rows))"
    by auto
  finally show ?thesis .
qed

lemma has_edge_row_loop:
  "has_edge (row_loop g rows) a b
     = (has_edge g a b \<or> [a, b] \<in> set rows \<or> [b, a] \<in> set rows)"
proof (induction rows arbitrary: g)
  case Nil
  show ?case by simp
next
  case (Cons r rows)
  show ?case
  proof (cases "length r = 2")
    case True
    then have "\<exists>u v. r = [u, v]" by (simp add: two_fields_iff)
    then obtain u v where r: "r = [u, v]" by blast
    show ?thesis unfolding r by (rule has_edge_row_loop_edge) (rule Cons.IH)
  next
    case False
    then have ne: "r \<noteq> [a, b]" "r \<noteq> [b, a]" by auto
    have "has_edge (row_loop g (r # rows)) a b
        = (has_edge g a b \<or> [a, b] \<in> set rows \<or> [b, a] \<in> set rows)"
      using False by (simp add: Cons.IH)
    also have "\<dots> = (has_edge g a b \<or> [a, b] \<in> set (r # rows) \<or> [b, a] \<in> set (r # rows))"
      using ne by auto
    finally show ?thesis .
  qed
qed

lemma has_node_row_loop_edge:
  assumes "\<And>g. has_node (row_loop g rows) n
     = (has_node g n \<or> (\<exists>m. [n, m] \<in> set rows \<or> [m, n] \<in> set rows))"
  shows "has_node (row_loop g ([u, v] # rows)) n
     = (has_node g n
        \<or> (\<exists>m. [n, m] \<in> set ([u, v] # rows) \<or> [m, n] \<in> set ([u, v] # rows)))"
proof -
  have "has_node (row_loop g ([u, v] # rows)) n
      = (has_node (add_edge g u v) n \<or> (\<exists>m. [n, m] \<in> set rows \<or> [m, n] \<in> set rows))"
    by (simp add: assms)
  also have "\<dots> = ((has_node g n \<or> n = u \<or> n = v)
       \<or> (\<exists>m. [n, m] \<in> set rows \<or> [m, n] \<in> set rows))"
    by (simp only: has_node_add_edge)
  also have "\<dots> = (has_node g n
        \<or> (\<exists>m. [n, m] \<in> set ([u, v] # rows) \<or> [m, n] \<in> set ([u, v] # rows)))"
    by auto
  finally show ?thesis .
qed

lemma has_node_row_loop:
  "has_node (row_loop g rows) n
     = (has_node g n \<or> (\<exists>m. [n, m] \<in> set rows \<or> [m, n] \<in> set rows))"
proof (induction rows arbitrary: g)
  case Nil
  show ?case by simp
next
  case (Cons r rows)
  show ?case
  proof (cases "length r = 2")
    case True
    then have "\<exists>u v. r = [u, v]" by (simp add: two_fields_iff)
    then obtain u v where r: "r = [u, v]" by blast
    show ?thesis unfolding r by (rule has_node_row_loop_edge) (rule Cons.IH)
  next
    case False
    then have ne: "\<And>m. r \<noteq> [n, m]" "\<And>m. r \<noteq> [m, n]" by auto
    have "has_node (row_loop g (r # rows)) n
        = (has_node g n \<or> (\<exists>m. [n, m] \<in> set rows \<or> [m, n] \<in> set rows))"
      using False by (simp add: Cons.IH)
    also have "\<dots> = (has_node g n
        \<or> (\<exists>m. [n, m] \<in> set (r # rows) \<or> [m, n] \<in> set (r # rows)))"
      using ne by auto
    finally show ?thesis .
  qed
qed

lemma row_loop_filter:
  "row_loop g (filter (\<lambda>row. length row = 2) rows) = row_loop g rows"
  by (induction rows arbitrary: g) auto

lemma row_loop_append: "row_loop g (xs @ ys) = row_loop (row_loop g xs) ys"
  by (induction xs arbitrary: g) auto

lemma drop_malformed_simps:
  "drop_malformed [] = []"
  "drop_malformed (header # data) = header # filter (\<lambda>row. length row = 2) data"
  by (simp_all add: drop_malformed_def)

lemma file_loop_rows:
  "headers_present csv_folder \<Longrightarrow> file_loop g csv_folder = Inr (row_loop g (data_rows csv_folder))"
proof (induction csv_folder arbitrary: g)
  case Nil
  show ?case by (simp add: data_rows_def)
next
  case (Cons f fs)
  obtain name rows where f: "f = (name, rows)" by (cases f)
  have hp: "headers_present fs" using Cons.prems by (simp add: headers_present_def)
  show ?case
  proof (cases "endswith name ''.csv''")
    case True
    then obtain header data where rows: "rows = header # data"
      using Cons.prems by (cases rows) (auto simp: headers_present_def f)
    have "row_loop (row_loop g data) (data_rows fs) = row_loop g (data @ data_rows fs)"
      by (induction data arbitrary: g) simp_all
    moreover have "data_rows (f # fs) = data @ data_rows fs"
      using True by (simp add: f rows data_rows_def)
    ultimately show ?thesis
      using True by (simp add: f rows Cons.IH [OF hp])
  next
    case False
    then have "data_rows (f # fs) = data_rows fs"
      by (simp add: f data_rows_def)
    then show ?thesis using False by (simp add: f Cons.IH [OF hp])
  qed
qed

lemma file_loop_drop_malformed:
  "file_loop g (map (\<lambda>(filename, rows). (filename, drop_malformed rows)) csv_folder)
     = file_loop g csv_folder"
proof (induction csv_folder arbitrary: g)
  case Nil
  show ?case by simp
next
  case (Cons f fs)
  obtain name rows where f: "f = (name, rows)" by (cases f)
  have "map (\<lambda>(filename, rows). (filename, drop_malformed rows)) (f # fs)
      = (name, drop_malformed rows)
        # map (\<lambda>(filename, rows). (filename, drop_malformed rows)) fs"
    by (simp add: f)
  then show ?case
    by (cases rows) (simp_all add: f Cons.IH drop_malformed_simps row_loop_filter)
qed

lemma load_all_rows:
  "headers_present csv_folder \<Longrightarrow>
   load_all_csv_edges csv_folder = Inr (row_loop [] (data_rows csv_folder))"
  unfolding load_all_csv_edges_def by (rule file_loop_rows)

lemma endswith_append:
  assumes "endswith ys suffix"
  shows "endswith (xs @ ys) suffix"
proof -
  have le: "length suffix \<le> length ys"
    and dr: "drop (length ys - length suffix) ys = suffix"
    using assms by (simp_all add: endswith_def)
  have "length (xs @ ys) - length suffix = length xs + (length ys - length suffix)"
    using le by simp
  then have "drop (length (xs @ ys) - length suffix) (xs @ ys) = suffix"
    using dr by simp
  then show ?thesis using le by (simp add: endswith_def)
qed

lemma endswith_self: "endswith suffix suffix"
  by (simp add: endswith_def)

lemma endswith_csv_filename: "endswith (csv_filename author max_depth) ''.csv''"
  unfolding csv_filename_def
  by (intro endswith_append endswith_self)

lemma load_one:
  "endswith name ''.csv'' \<Longrightarrow>
   load_all_csv_edges [(name, header # data)] = Inr (row_loop [] data)"
  by (simp add: load_all_csv_edges_def)

lemma load_two:
  "endswith name1 ''.csv'' \<Longrightarrow> endswith name2 ''.csv'' \<Longrightarrow>
   load_all_csv_edges [(name1, header1 # data1), (name2, header2 # data2)]
     = Inr (row_loop [] (data1 @ data2))"
  by (simp add: load_all_csv_edges_def row_loop_append)

section \<open>Claims about loading and saving\<close>

text \<open>
  C10.  If the folder holds a file whose name ends in \<open>.csv\<close> and that has no
  row at all, loading raises \<open>StopIteration\<close>: no graph is returned,
  whatever the other files of the folder hold.
\<close>

theorem load_raises_on_empty_file:
  "(name, []) \<in> set csv_folder \<Longrightarrow> endswith name ''.csv'' \<Longrightarrow>
   load_all_csv_edges csv_folder = Inl StopIteration"
  unfolding load_all_csv_edges_def by (rule file_loop_empty_file)

theorem load_raises_on_empty_file_witness:
  "(''b.csv'', []) \<in> set [(''a.csv'', [[''Author1'', ''Author2''], [''A'', ''B'']]), (''b.csv'', [])]
   \<and> endswith ''b.csv'' ''.csv''
   \<and> load_all_csv_edges [(''a.csv'', [[''Author1'', ''Author2''], [''A'', ''B'']]), (''b.csv'', [])]
       = Inl StopIteration
   \<and> load_all_csv_edges [(''a.csv'', [[''Author1'', ''Author2''], [''A'', ''B'']])]
       = Inr [(''A'', [''B'']), (''B'', [''A''])]"
proof -
  have m: "(''b.csv'', []) \<in> set [(''a.csv'', [[''Author1'', ''Author2''], [''A'', ''B'']]), (''b.csv'', [])]"
    by simp
  have e: "endswith ''b.csv'' ''.csv''"
    by (simp add: endswith_def)
  have l: "load_all_csv_edges [(''a.csv'', [[''Author1'', ''Author2''], [''A'', ''B'']])]
       = Inr [(''A'', [''B'']), (''B'', [''A''])]"
    by (simp add: load_all_csv_edges_def endswith_def graph_defs)
  show ?thesis
    using m e l load_raises_on_empty_file [OF m e] by simp
qed

text \<open>
  C7.  When every \<open>.csv\<close> file of the folder has its header row, loading
  returns a graph.  Its edges are those named by the two-field rows after
  the headers, its nodes are the fields of those rows, and it is the graph
  that the folder gives once every row with another number of fields is
  removed.
\<close>

theorem load_skips_malformed_rows:
  assumes "headers_present csv_folder"
  shows "\<exists>g. load_all_csv_edges csv_folder = Inr g
     \<and> (\<forall>a b. has_edge g a b
           = ([a, b] \<in> set (data_rows csv_folder) \<or> [b, a] \<in> set (data_rows csv_folder)))
     \<and> (\<forall>n. has_node g n
           = (\<exists>m. [n, m] \<in> set (data_rows csv_folder) \<or> [m, n] \<in> set (data_rows csv_folder)))
     \<and> load_all_csv_edges
           (map (\<lambda>(filename, rows). (filename, drop_malformed rows)) csv_folder) = Inr g"
proof -
  let ?g = "row_loop [] (data_rows csv_folder)"
  have l: "load_all_csv_edges csv_folder = Inr ?g"
    by (rule load_all_rows [OF assms])
  have e: "\<forall>a b. has_edge ?g a b
      = ([a, b] \<in> set (data_rows csv_folder) \<or> [b, a] \<in> set (data_rows csv_folder))"
    by (simp add: has_edge_row_loop has_edge_empty)
  have n: "\<forall>n. has_node ?g n
      = (\<exists>m. [n, m] \<in> set (data_rows csv_folder) \<or> [m, n] \<in> set (data_rows csv_folder))"
    by (simp add: has_node_row_loop has_node_empty)
  have d: "load_all_csv_edges
      (map (\<lambda>(filename, rows). (filename, drop_malformed rows)) csv_folder) = Inr ?g"
    using l by (simp add: load_all_csv_edges_def file_loop_drop_malformed)
  from l e n d show ?thesis by blast
qed

theorem load_skips_malformed_rows_witness:
  "headers_present folder_with_malformed_row
   \<and> load_all_csv_edges folder_with_malformed_row
       = Inr [(''A'', [''B'']), (''B'', [''A'', ''C'']), (''C'', [''B''])]
   \<and> data_rows folder_with_malformed_row
       = [[''A'', ''B''], [''x'', ''y'', ''z''], [], [''C'', ''B'']]
   \<and> has_edge [(''A'', [''B'']), (''B'', [''A'', ''C'']), (''C'', [''B''])] ''C'' ''B''
   \<and> \<not> has_node [(''A'', [''B'']), (''B'', [''A'', ''C'']), (''C'', [''B''])] ''x''"
proof -
  have e: "endswith ''edges.csv'' ''.csv''" "\<not> endswith ''notes.txt'' ''.csv''"
    by (simp_all add: endswith_def)
  have h: "headers_present folder_with_malformed_row"
    by (simp add: headers_present_def folder_with_malformed_row_def e)
  have d: "data_rows folder_with_malformed_row
      = [[''A'', ''B''], [''x'', ''y'', ''z''], [], [''C'', ''B'']]"
    by (simp add: data_rows_def folder_with_malformed_row_def e)
  have l: "load_all_csv_edges folder_with_malformed_row
      = Inr [(''A'', [''B'']), (''B'', [''A'', ''C'']), (''C'', [''B''])]"
    by (simp add: load_all_csv_edges_def folder_with_malformed_row_def e graph_defs)
  from load_skips_malformed_rows [OF h]
  obtain g where g: "load_all_csv_edges folder_with_malformed_row = Inr g"
    "\<forall>a b. has_edge g a b = ([a, b] \<in> set (data_rows folder_with_malformed_row)
        \<or> [b, a] \<in> set (data_rows folder_with_malformed_row))"
    "\<forall>n. has_node g n = (\<exists>m. [n, m] \<in> set (data_rows folder_with_malformed_row)
        \<or> [m, n] \<in> set (data_rows folder_with_malformed_row))"
    by blast
  have eq: "g = [(''A'', [''B'']), (''B'', [''A'', ''C'']), (''C'', [''B''])]"
    using g(1) l by simp
  have "has_edge g ''C'' ''B''" "\<not> has_node g ''x''"
    by (simp_all add: g(2,3) d)
  with h d l show ?thesis unfolding eq by blast
qed

text \<open>
  C2 (as stated, the claim fails on loading).  A data row with the same name
  in both fields is added as an edge like any other two-field row.
\<close>

theorem load_creates_self_edge:
  "load_all_csv_edges [(''edges.csv'', [[''Author1'', ''Author2''], [''A'', ''A'']])]
     = Inr [(''A'', [''A''])]
   \<and> has_edge [(''A'', [''A''])] ''A'' ''A''"
  by (simp add: load_all_csv_edges_def endswith_def graph_defs)

text \<open>
  C2 (amended).  A graph returned by the build has no self-edge, whatever
  the source returns.  A graph returned by loading has the self-edge
  \<open>(A,A)\<close> exactly when a two-field data row of some loaded file has \<open>A\<close>
  in both fields.
\<close>

theorem self_edges_of_build_and_load:
  "(build_collaboration_network src seed max_depth = Inr g \<longrightarrow> \<not> has_edge g a a)
   \<and> (load_all_csv_edges csv_folder = Inr g' \<longrightarrow>
        has_edge g' a a = ([a, a] \<in> set (data_rows csv_folder)))"
proof (intro conjI impI)
  assume "build_collaboration_network src seed max_depth = Inr g"
  then have "g = graph_of (run_build src seed max_depth)"
    by (simp add: build_collaboration_network_def Let_def split: option.splits)
  then show "\<not> has_edge g a a"
    by (simp only: run_build_no_self not_False_eq_True)
next
  assume l: "load_all_csv_edges csv_folder = Inr g'"
  have "headers_present csv_folder"
  proof (rule ccontr)
    assume "\<not> headers_present csv_folder"
    then obtain name where "(name, []) \<in> set csv_folder" "endswith name ''.csv''"
      by (auto simp: headers_present_def list_all_iff)
    then have "load_all_csv_edges csv_folder = Inl StopIteration"
      unfolding load_all_csv_edges_def by (rule file_loop_empty_file)
    with l show False by simp
  qed
  then have "g' = row_loop [] (data_rows csv_folder)"
    using l by (simp add: load_all_rows)
  then show "has_edge g' a a = ([a, a] \<in> set (data_rows csv_folder))"
    by (simp add: has_edge_row_loop has_edge_empty)
qed

theorem self_edges_of_build_and_load_witness:
  "build_collaboration_network stub_source ''A'' 1
      = Inr [(''A'', [''B'', ''C'']), (''B'', [''A'']), (''C'', [''A''])]
   \<and> \<not> has_edge [(''A'', [''B'', ''C'']), (''B'', [''A'']), (''C'', [''A''])] ''A'' ''A''
   \<and> load_all_csv_edges [(''edges.csv'', [[''Author1'', ''Author2''], [''A'', ''A'']])]
      = Inr [(''A'', [''A''])]
   \<and> has_edge [(''A'', [''A''])] ''A'' ''A''
   \<and> [''A'', ''A''] \<in> set (data_rows [(''edges.csv'', [[''Author1'', ''Author2''], [''A'', ''A'']])])"
proof -
  have b: "build_collaboration_network stub_source ''A'' 1
      = Inr [(''A'', [''B'', ''C'']), (''B'', [''A'']), (''C'', [''A''])]"
    by (simp add: build_collaboration_network_def run_build_stub)
  have l: "load_all_csv_edges [(''edges.csv'', [[''Author1'', ''Author2''], [''A'', ''A'']])]
      = Inr [(''A'', [''A''])]"
    by (simp add: load_all_csv_edges_def endswith_def graph_defs)
  have d: "data_rows [(''edges.csv'', [[''Author1'', ''Author2''], [''A'', ''A'']])]
      = [[''A'', ''A'']]"
    by (simp add: data_rows_def endswith_def)
  show ?thesis
    using b l d
      self_edges_of_build_and_load [of stub_source "''A''" 1
        "[(''A'', [''B'', ''C'']), (''B'', [''A'']), (''C'', [''A''])]" "''A''"
        "[(''edges.csv'', [[''Author1'', ''Author2''], [''A'', ''A'']])]" "[(''A'', [''A''])]"]
    by simp
qed

text \<open>
  C8.  When two \<open>.csv\<close> files of a folder both hold the row \<open>A,B\<close>, loading
  the folder returns a graph whose edge listing has exactly one entry between
  \<open>A\<close> and \<open>B\<close>; its edges and nodes are those of the graphs of the two
  files taken together.
\<close>

theorem load_merges_duplicate_edges:
  assumes "endswith name1 ''.csv''" and "endswith name2 ''.csv''"
    and "[a, b] \<in> set data1" and "[a, b] \<in> set data2"
  shows "\<exists>g g1 g2.
       load_all_csv_edges [(name1, header1 # data1), (name2, header2 # data2)] = Inr g
     \<and> load_all_csv_edges [(name1, header1 # data1)] = Inr g1
     \<and> load_all_csv_edges [(name2, header2 # data2)] = Inr g2
     \<and> length (filter (\<lambda>e. e = (a, b) \<or> e = (b, a)) (edges g)) = 1
     \<and> (\<forall>u v. has_edge g u v = (has_edge g1 u v \<or> has_edge g2 u v))
     \<and> (\<forall>n. has_node g n = (has_node g1 n \<or> has_node g2 n))"
proof -
  let ?g = "row_loop [] (data1 @ data2)"
  let ?g1 = "row_loop [] data1"
  let ?g2 = "row_loop [] data2"
  have l: "load_all_csv_edges [(name1, header1 # data1), (name2, header2 # data2)] = Inr ?g"
    by (rule load_two [OF assms(1,2)])
  have l1: "load_all_csv_edges [(name1, header1 # data1)] = Inr ?g1"
    by (rule load_one [OF assms(1)])
  have l2: "load_all_csv_edges [(name2, header2 # data2)] = Inr ?g2"
    by (rule load_one [OF assms(2)])
  have "has_edge ?g a b"
    using assms(3) by (simp add: has_edge_row_loop)
  then have c: "length (filter (\<lambda>e. e = (a, b) \<or> e = (b, a)) (edges ?g)) = 1"
    by (rule edges_between [OF wf_graph_loaded])
  have e: "\<forall>u v. has_edge ?g u v = (has_edge ?g1 u v \<or> has_edge ?g2 u v)"
    by (auto simp: has_edge_row_loop has_edge_empty)
  have n: "\<forall>n. has_node ?g n = (has_node ?g1 n \<or> has_node ?g2 n)"
    by (auto simp: has_node_row_loop has_node_empty)
  from l l1 l2 c e n show ?thesis by blast
qed

theorem load_merges_duplicate_edges_witness:
  "endswith ''one.csv'' ''.csv'' \<and> endswith ''two.csv'' ''.csv''
   \<and> [''A'', ''B''] \<in> set [[''A'', ''B'']]
   \<and> load_all_csv_edges
        [(''one.csv'', [[''Author1'', ''Author2''], [''A'', ''B'']]),
         (''two.csv'', [[''Author1'', ''Author2''], [''A'', ''B'']])]
       = Inr [(''A'', [''B'']), (''B'', [''A''])]
   \<and> edges [(''A'', [''B'']), (''B'', [''A''])] = [(''A'', ''B'')]
   \<and> length (filter (\<lambda>e. e = (''A'', ''B'') \<or> e = (''B'', ''A''))
         (edges [(''A'', [''B'']), (''B'', [''A''])])) = 1"
proof -
  have e: "endswith ''one.csv'' ''.csv''" "endswith ''two.csv'' ''.csv''"
    by (simp_all add: endswith_def)
  have m: "[''A'', ''B''] \<in> set [[''A'', ''B'']]" by simp
  have l: "load_all_csv_edges
        [(''one.csv'', [[''Author1'', ''Author2''], [''A'', ''B'']]),
         (''two.csv'', [[''Author1'', ''Author2''], [''A'', ''B'']])]
       = Inr [(''A'', [''B'']), (''B'', [''A''])]"
    by (simp add: load_all_csv_edges_def e graph_defs)
  have ed: "edges [(''A'', [''B'']), (''B'', [''A''])] = [(''A'', ''B'')]"
    by (simp add: edges_def)
  from load_merges_duplicate_edges [OF e m m, of "[''Author1'', ''Author2'']"
      "[''Author1'', ''Author2'']"]
  obtain g where g: "load_all_csv_edges
        [(''one.csv'', [[''Author1'', ''Author2''], [''A'', ''B'']]),
         (''two.csv'', [[''Author1'', ''Author2''], [''A'', ''B'']])] = Inr g"
    "length (filter (\<lambda>e. e = (''A'', ''B'') \<or> e = (''B'', ''A'')) (edges g)) = 1"
    by blast
  have "g = [(''A'', [''B'']), (''B'', [''A''])]" using g(1) l by simp
  with g(2) e m l ed show ?thesis by blast
qed

text \<open>
  C9.  Loading a folder that holds only the file saved for a graph gives a
  graph with the same edges, whose nodes are the nodes of the saved graph
  that have a neighbour: a node without any edge is not a node of the loaded
  graph.
\<close>

theorem save_then_load:
  assumes "wf_graph g"
  shows "\<exists>g'. load_all_csv_edges [save_edges_to_csv g author max_depth] = Inr g'
     \<and> (\<forall>u v. has_edge g' u v = has_edge g u v)
     \<and> (\<forall>n. has_node g' n = (neighbors g n \<noteq> []))"
proof -
  let ?rows = "map (\<lambda>(u, v). [u, v]) (edges g)"
  let ?g' = "row_loop [] ?rows"
  have sym: "\<And>u v. has_edge g u v \<Longrightarrow> has_edge g v u"
    using assms by (simp add: wf_graph_iff)
  have rows: "\<And>u v. [u, v] \<in> set ?rows \<longleftrightarrow> (u, v) \<in> set (edges g)"
    by force
  have both: "\<And>u v. ((u, v) \<in> set (edges g) \<or> (v, u) \<in> set (edges g)) = has_edge g u v"
    using edges_has_edge [OF assms] has_edge_edges [OF assms] sym by blast
  have l: "load_all_csv_edges [save_edges_to_csv g author max_depth] = Inr ?g'"
    unfolding save_edges_to_csv_def by (rule load_one [OF endswith_csv_filename])
  have e: "\<forall>u v. has_edge ?g' u v = has_edge g u v"
    by (simp only: has_edge_row_loop has_edge_empty rows both simp_thms)
  have n: "\<forall>n. has_node ?g' n = (neighbors g n \<noteq> [])"
  proof
    fix n
    have "has_node ?g' n = (\<exists>m. (n, m) \<in> set (edges g) \<or> (m, n) \<in> set (edges g))"
      by (simp only: has_node_row_loop has_node_empty rows simp_thms)
    also have "\<dots> = (\<exists>m. has_edge g n m)"
      by (simp only: both)
    also have "\<dots> = (neighbors g n \<noteq> [])"
      by (cases "neighbors g n") (auto simp: has_edge_def)
    finally show "has_node ?g' n = (neighbors g n \<noteq> [])" .
  qed
  from l e n show ?thesis by blast
qed

theorem save_then_load_witness:
  "wf_graph two_components
   \<and> snd (save_edges_to_csv two_components ''A'' 1)
       = [[''Author1'', ''Author2''], [''A'', ''B'']]
   \<and> load_all_csv_edges [save_edges_to_csv two_components ''A'' 1]
       = Inr [(''A'', [''B'']), (''B'', [''A''])]
   \<and> has_node two_components ''C''
   \<and> \<not> has_node [(''A'', [''B'']), (''B'', [''A''])] ''C''
   \<and> wf_graph [(''A'', [])]
   \<and> load_all_csv_edges [save_edges_to_csv [(''A'', [])] ''A'' 0] = Inr []"
proof -
  have s: "snd (save_edges_to_csv two_components ''A'' 1)
       = [[''Author1'', ''Author2''], [''A'', ''B'']]"
    by (simp add: save_edges_to_csv_def edges_def two_components_def)
  have l: "load_all_csv_edges [save_edges_to_csv two_components ''A'' 1]
       = Inr [(''A'', [''B'']), (''B'', [''A''])]"
    using s load_one [OF endswith_csv_filename, of "''A''" 1 "[''Author1'', ''Author2'']"
        "[[''A'', ''B'']]"]
    by (simp add: save_edges_to_csv_def graph_defs)
  from save_then_load [OF wf_two_components, of "''A''" 1]
  obtain g' where g': "load_all_csv_edges [save_edges_to_csv two_components ''A'' 1] = Inr g'"
    "\<forall>n. has_node g' n = (neighbors two_components n \<noteq> [])"
    by blast
  have eq: "g' = [(''A'', [''B'']), (''B'', [''A''])]" using g'(1) l by simp
  have c: "\<not> has_node g' ''C''"
    by (simp add: g'(2) neighbors_def two_components_def)
  have hc: "has_node two_components ''C''"
    by (simp add: has_node_def nodes_def two_components_def)
  have wf0: "wf_graph [(''A'', [])]"
    by (simp add: wf_graph_def nodes_def)
  from save_then_load [OF wf0, of "''A''" 0]
  obtain g0 where g0: "load_all_csv_edges [save_edges_to_csv [(''A'', [])] ''A'' 0] = Inr g0"
    "\<forall>n. has_node g0 n = (neighbors [(''A'', [])] n \<noteq> [])"
    by blast
  have "\<forall>n. \<not> has_node g0 n"
    by (simp add: g0(2) neighbors_def)
  then have "g0 = []"
    by (cases g0) (auto simp: has_node_def nodes_def)
  then have l0: "load_all_csv_edges [save_edges_to_csv [(''A'', [])] ''A'' 0] = Inr []"
    using g0(1) by simp
  show ?thesis
    using wf_two_components s l hc c wf0 l0 unfolding eq by blast
qed

end
